theory Spec2Isabelle
  imports Main "HOL-Library.Product_Lexorder" "HOL-Library.Multiset"
begin

section \<open>JavaScript strings\<close>

text \<open>
  A JavaScript string is modelled as a list of code units, restricted to the code
  units below 256 (type \<^typ>\<open>char\<close>).  The character tables below (white space,
  word characters, case mapping) are the ECMAScript tables cut down to that range.
\<close>

definition lower_letters :: string where
  "lower_letters = ''abcdefghijklmnopqrstuvwxyz''"

definition upper_letters :: string where
  "upper_letters = ''ABCDEFGHIJKLMNOPQRSTUVWXYZ''"

definition digits :: string where
  "digits = ''0123456789''"

text \<open>The letters between \<open>0xC0\<close> and \<open>0xFE\<close> that have a case partner below 256
  (\<open>0xD7\<close> and \<open>0xF7\<close> are the multiplication and division signs).\<close>

definition upper_latin1 :: string where
  "upper_latin1 = [CHR 0xC0, CHR 0xC1, CHR 0xC2, CHR 0xC3, CHR 0xC4, CHR 0xC5, CHR 0xC6, CHR 0xC7, CHR 0xC8, CHR 0xC9, CHR 0xCA, CHR 0xCB, CHR 0xCC, CHR 0xCD, CHR 0xCE, CHR 0xCF, CHR 0xD0, CHR 0xD1, CHR 0xD2, CHR 0xD3, CHR 0xD4, CHR 0xD5, CHR 0xD6, CHR 0xD8, CHR 0xD9, CHR 0xDA, CHR 0xDB, CHR 0xDC, CHR 0xDD, CHR 0xDE]"

definition lower_latin1 :: string where
  "lower_latin1 = [CHR 0xE0, CHR 0xE1, CHR 0xE2, CHR 0xE3, CHR 0xE4, CHR 0xE5, CHR 0xE6, CHR 0xE7, CHR 0xE8, CHR 0xE9, CHR 0xEA, CHR 0xEB, CHR 0xEC, CHR 0xED, CHR 0xEE, CHR 0xEF, CHR 0xF0, CHR 0xF1, CHR 0xF2, CHR 0xF3, CHR 0xF4, CHR 0xF5, CHR 0xF6, CHR 0xF8, CHR 0xF9, CHR 0xFA, CHR 0xFB, CHR 0xFC, CHR 0xFD, CHR 0xFE]"

text \<open>\<open>String.prototype.toLowerCase\<close>, one code unit at a time.\<close>

definition lower_char :: "char \<Rightarrow> char" where
  "lower_char c =
     (case map_of (zip (upper_letters @ upper_latin1) (lower_letters @ lower_latin1)) c of
        Some l \<Rightarrow> l
      | None \<Rightarrow> c)"

definition toLowerCase :: "string \<Rightarrow> string" where
  "toLowerCase s = map lower_char s"

text \<open>
  \<open>Canonicalize\<close> of a regular expression with the \<open>i\<close> flag (no \<open>u\<close> flag): the
  upper-case mapping where it yields one code unit.  The two letters below 256 whose
  upper case lies above 255 (\<open>0xB5\<close>, \<open>0xFF\<close>) and \<open>0xDF\<close> (upper case of two
  units) stand for themselves; no other code unit below 256 shares their canonical form.
\<close>

definition canonicalize :: "char \<Rightarrow> char" where
  "canonicalize c =
     (case map_of (zip (lower_letters @ lower_latin1) (upper_letters @ upper_latin1)) c of
        Some u \<Rightarrow> u
      | None \<Rightarrow> c)"

text \<open>White space and line terminators: the class \<open>\s\<close> and what \<open>trim\<close> strips
  (tab, line feed, vertical tab, form feed, carriage return, space, no-break space).\<close>

definition space_chars :: string where
  "space_chars = [CHR 0x09, CHR 0x0A, CHR 0x0B, CHR 0x0C, CHR 0x0D, CHR 0x20, CHR 0xA0]"

text \<open>The class \<open>\w\<close>.\<close>

definition word_chars :: string where
  "word_chars = lower_letters @ upper_letters @ digits @ ''_''"

definition is_space :: "char \<Rightarrow> bool" where
  "is_space c = (c \<in> set space_chars)"

definition trim :: "string \<Rightarrow> string" where
  "trim s = rev (dropWhile is_space (rev (dropWhile is_space s)))"

text \<open>\<open>s.substring(b, e)\<close> for \<open>0 \<le> b \<le> e\<close>, and \<open>s.slice(start, end)\<close> with its
  treatment of negative and oversized arguments.\<close>

definition substring :: "string \<Rightarrow> nat \<Rightarrow> nat \<Rightarrow> string" where
  "substring s b e = take (e - b) (drop b s)"

definition slice :: "string \<Rightarrow> int \<Rightarrow> int \<Rightarrow> string" where
  "slice s start end =
     (let len = int (length s);
          from = (if start < 0 then max (len + start) 0 else min start len);
          to = (if end < 0 then max (len + end) 0 else min end len)
      in take (nat (to - from)) (drop (nat from) s))"

fun join :: "string \<Rightarrow> string list \<Rightarrow> string" where
  "join sep [] = []"
| "join sep [x] = x"
| "join sep (x # y # ys) = x @ sep @ join sep (y # ys)"

section \<open>Regular expressions\<close>

text \<open>
  The fragment of ECMAScript patterns that the tools use: character classes (a literal
  character is a one-element class), concatenation, the greedy quantifiers \<open>?\<close> and
  \<open>*\<close> (\<open>+\<close> and \<open>{n,}\<close> are written with them), negative lookahead and the
  word-boundary assertion.  None of the patterns has a capture group.
\<close>

datatype re =
    Class bool string
  | Empty
  | Cat re re
  | Opt re
  | Star re
  | NotAhead re
  | WordB

definition re_lit :: "char \<Rightarrow> re" where
  "re_lit c = Class False [c]"

definition re_seq :: "re list \<Rightarrow> re" where
  "re_seq rs = foldr Cat rs Empty"

definition re_str :: "string \<Rightarrow> re" where
  "re_str s = re_seq (map re_lit s)"

definition re_plus :: "re \<Rightarrow> re" where
  "re_plus r = Cat r (Star r)"

definition re_rep :: "nat \<Rightarrow> re \<Rightarrow> re" where
  "re_rep n r = re_seq (replicate n r)"

definition re_at_least :: "nat \<Rightarrow> re \<Rightarrow> re" where
  "re_at_least n r = Cat (re_rep n r) (Star r)"

text \<open>Membership of a code unit in a class; with the \<open>i\<close> flag the class members and
  the input are compared after \<open>Canonicalize\<close>.\<close>

definition class_has :: "bool \<Rightarrow> string \<Rightarrow> char \<Rightarrow> bool" where
  "class_has ic cs c =
     (if ic then canonicalize c \<in> set (map canonicalize cs) else c \<in> set cs)"

definition is_word_at :: "string \<Rightarrow> int \<Rightarrow> bool" where
  "is_word_at s i = (0 \<le> i \<and> i < int (length s) \<and> s ! nat i \<in> set word_chars)"

text \<open>
  The backtracking matcher.  \<open>ends ic s r i\<close> lists the end indices of the matches of
  \<open>r\<close> in \<open>s\<close> that start at index \<open>i\<close>, in the order in which the backtracking
  matcher of ECMAScript tries them; its head is the match the matcher returns.  A
  quantifier rejects an iteration that consumes nothing, as \<open>RepeatMatcher\<close> does.
\<close>

function ends :: "bool \<Rightarrow> string \<Rightarrow> re \<Rightarrow> nat \<Rightarrow> nat list" where
  "ends ic s (Class neg cs) i =
     (if i < length s \<and> (class_has ic cs (s ! i) \<noteq> neg) then [Suc i] else [])"
| "ends ic s Empty i = [i]"
| "ends ic s (Cat r1 r2) i = concat (map (ends ic s r2) (ends ic s r1 i))"
| "ends ic s (Opt r) i = filter (\<lambda>j. j \<noteq> i) (ends ic s r i) @ [i]"
| "ends ic s (Star r) i =
     concat (map (ends ic s (Star r)) (filter (\<lambda>j. i < j \<and> j \<le> length s) (ends ic s r i))) @ [i]"
| "ends ic s (NotAhead r) i = (if ends ic s r i = [] then [i] else [])"
| "ends ic s WordB i = (if is_word_at s (int i - 1) \<noteq> is_word_at s (int i) then [i] else [])"
  by pat_completeness auto
termination
  by (relation "inv_image (measure size <*lex*> measure id) (\<lambda>(ic, s, r, i). (r, length s - i))") auto

declare ends.simps [simp del]

lemma ends_ge: "j \<in> set (ends ic s r i) \<Longrightarrow> i \<le> j"
proof (induction ic s r i arbitrary: j rule: ends.induct)
  case (1 ic s neg cs i)
  then show ?case by (simp add: ends.simps split: if_splits)
next
  case (2 ic s i)
  then show ?case by (simp add: ends.simps)
next
  case (3 ic s r1 r2 i)
  then obtain k where k: "k \<in> set (ends ic s r1 i)" "j \<in> set (ends ic s r2 k)"
    by (auto simp: ends.simps(3))
  from "3.IH"(1)[OF k(1)] "3.IH"(2)[OF k] show ?case by simp
next
  case (4 ic s r i)
  from "4.prems" have "j \<in> set (ends ic s r i) \<or> j = i" by (auto simp: ends.simps(4))
  with "4.IH" show ?case by auto
next
  case (5 ic s r i)
  from "5.prems" consider "j = i"
    | k where "k \<in> set (ends ic s r i)" "i < k" "k \<le> length s" "j \<in> set (ends ic s (Star r) k)"
    using ends.simps(5)[of ic s r i] by auto
  then show ?case
  proof cases
    case 1
    then show ?thesis by simp
  next
    case 2
    from "5.IH"(2)[of k j] 2 have "k \<le> j" by simp
    with 2 show ?thesis by simp
  qed
next
  case (6 ic s r i)
  then show ?case by (simp add: ends.simps split: if_splits)
next
  case (7 ic s i)
  then show ?case by (simp add: ends.simps split: if_splits)
qed

text \<open>\<open>RegExpBuiltinExec\<close>: the leftmost match that starts at or after \<open>i\<close>.\<close>

function search_from :: "bool \<Rightarrow> re \<Rightarrow> string \<Rightarrow> nat \<Rightarrow> (nat \<times> nat) option" where
  "search_from ic r s i =
     (if length s < i then None
      else case ends ic s r i of
             e # _ \<Rightarrow> Some (i, e)
           | [] \<Rightarrow> search_from ic r s (Suc i))"
  by pat_completeness auto
termination
  by (relation "measure (\<lambda>(ic, r, s, i). Suc (length s) - i)") auto

declare search_from.simps [simp del]

lemma search_from_bounds:
  "search_from ic r s i = Some (b, e) \<Longrightarrow> i \<le> b \<and> b \<le> length s \<and> b \<le> e"
proof (induction ic r s i rule: search_from.induct)
  case (1 ic r s i)
  show ?case
  proof (cases "ends ic s r i")
    case Nil
    with "1.prems" have "\<not> length s < i" and "search_from ic r s (Suc i) = Some (b, e)"
      by (auto simp: search_from.simps[of ic r s i] split: if_splits)
    with "1.IH" Nil show ?thesis by fastforce
  next
    case (Cons e' es)
    with "1.prems" have "\<not> length s < i" "b = i" "e = e'"
      by (auto simp: search_from.simps[of ic r s i] split: if_splits)
    moreover have "i \<le> e'" using Cons ends_ge[of e' ic s r i] by simp
    ultimately show ?thesis by simp
  qed
qed

text \<open>
  The matches a global (\<open>g\<close>) regular expression yields when \<open>match\<close> or \<open>replace\<close>
  runs it over the whole string: after each match the search resumes at its end, one
  code unit further when the match is empty.
\<close>

function global_matches :: "bool \<Rightarrow> re \<Rightarrow> string \<Rightarrow> nat \<Rightarrow> (nat \<times> nat) list" where
  "global_matches ic r s i =
     (case search_from ic r s i of
        None \<Rightarrow> []
      | Some (b, e) \<Rightarrow> (b, e) # global_matches ic r s (if e = b then Suc e else e))"
  by pat_completeness auto
termination
proof (relation "measure (\<lambda>(ic, r, s, i). Suc (length s) - i)")
  fix ic r s i x2 b e
  assume "search_from ic r s i = Some x2" "(b, e) = x2"
  then have "search_from ic r s i = Some (b, e)" by simp
  from search_from_bounds[OF this]
  show "((ic, r, s, if e = b then Suc e else e), ic, r, s, i)
          \<in> measure (\<lambda>(ic, r, s, i). Suc (length s) - i)"
    by auto
qed simp

declare global_matches.simps [simp del]

text \<open>\<open>s.match(re)\<close> for a global \<open>re\<close>: the matched substrings, or \<open>null\<close> when there
  is none.\<close>

definition match_g :: "bool \<Rightarrow> re \<Rightarrow> string \<Rightarrow> string list option" where
  "match_g ic r s =
     (case global_matches ic r s 0 of
        [] \<Rightarrow> None
      | ms \<Rightarrow> Some (map (\<lambda>(b, e). substring s b e) ms))"

text \<open>\<open>s.replace(re, f)\<close> for a global \<open>re\<close>; \<open>f\<close> maps the matched substring to its
  replacement.\<close>

fun splice_matches :: "string \<Rightarrow> (string \<Rightarrow> string) \<Rightarrow> nat \<Rightarrow> (nat \<times> nat) list \<Rightarrow> string" where
  "splice_matches s f p [] = drop p s"
| "splice_matches s f p ((b, e) # ms) = substring s p b @ f (substring s b e) @ splice_matches s f e ms"

definition replace_g :: "bool \<Rightarrow> re \<Rightarrow> (string \<Rightarrow> string) \<Rightarrow> string \<Rightarrow> string" where
  "replace_g ic r f s = splice_matches s f 0 (global_matches ic r s 0)"

text \<open>
  \<open>s.split(re)\<close> without a limit, for a pattern without capture groups: \<open>p\<close> is the
  start of the current piece and \<open>q\<close> the index at which a separator is tried; a
  separator match that ends at \<open>p\<close> is skipped.
\<close>

function split_loop :: "bool \<Rightarrow> re \<Rightarrow> string \<Rightarrow> nat \<Rightarrow> nat \<Rightarrow> string list" where
  "split_loop ic r s p q =
     (if length s \<le> q then [drop p s]
      else case ends ic s r q of
             [] \<Rightarrow> split_loop ic r s p (Suc q)
           | e # _ \<Rightarrow>
               (let e' = min e (length s) in
                if e' = p then split_loop ic r s p (Suc q)
                else substring s p q # split_loop ic r s e' e'))"
  by pat_completeness auto
termination
proof (relation "measure (\<lambda>(ic, r, s, p, q). 2 * (length s - q) + (if q = p then 0 else 1))")
  fix ic r s p q e es e'
  assume a: "\<not> length s \<le> q" "ends ic s r q = e # es" "e' = min e (length s)" "e' \<noteq> p"
  have "q \<le> e" using ends_ge[of e ic s r q] a(2) by simp
  with a show "((ic, r, s, e', e'), ic, r, s, p, q)
        \<in> measure (\<lambda>(ic, r, s, p, q). 2 * (length s - q) + (if q = p then 0 else 1))"
    by (auto simp: min_def)
qed auto

declare split_loop.simps [simp del]

definition split_re :: "bool \<Rightarrow> re \<Rightarrow> string \<Rightarrow> string list" where
  "split_re ic r s =
     (if s = [] then (if ends ic s r 0 = [] then [s] else [])
      else split_loop ic r s 0 0)"

section \<open>The regular expressions of the tools\<close>

text \<open>\<^verbatim>\<open>/<script\b[^<]*(?:(?!<\/script>)<[^<]*)*<\/script>/gsi\<close>\<close>

definition script_re :: re where
  "script_re =
     re_seq [re_str ''<script'', WordB, Star (Class True ''<''),
             Star (re_seq [NotAhead (re_str ''</script>''), re_lit CHR ''<'',
                           Star (Class True ''<'')]),
             re_str ''</script>'']"

text \<open>\<^verbatim>\<open>/<[^>]*>/g\<close>\<close>

definition tag_re :: re where
  "tag_re = re_seq [re_lit CHR ''<'', Star (Class True ''>''), re_lit CHR ''>'']"

text \<open>\<^verbatim>\<open>/\s+/\<close>, used with and without the \<open>g\<close> flag\<close>

definition spaces_re :: re where
  "spaces_re = re_plus (Class False space_chars)"

text \<open>\<^verbatim>\<open>/\r?\n/\<close>\<close>

definition newline_re :: re where
  "newline_re = re_seq [Opt (re_lit (CHR 0x0D)), re_lit (CHR 0x0A)]"

text \<open>\<^verbatim>\<open>/[.!?]+/\<close>\<close>

definition sentence_end_re :: re where
  "sentence_end_re = re_plus (Class False ''.!?'')"

text \<open>\<^verbatim>\<open>/[^\w\s]/g\<close>\<close>

definition punctuation_re :: re where
  "punctuation_re = Class True (word_chars @ space_chars)"

text \<open>\<^verbatim>\<open>/\b[A-Z][a-z]+\b/g\<close>\<close>

definition caps_re :: re where
  "caps_re = re_seq [WordB, Class False upper_letters, re_plus (Class False lower_letters), WordB]"

text \<open>\<^verbatim>\<open>/[a-zA-Z0-9._%+-]+@[a-zA-Z0-9.-]+\.[a-zA-Z]{2,}/g\<close>\<close>

definition email_re :: re where
  "email_re =
     re_seq [re_plus (Class False (lower_letters @ upper_letters @ digits @ ''._%+-'')),
             re_lit CHR ''@'',
             re_plus (Class False (lower_letters @ upper_letters @ digits @ ''.-'')),
             re_lit CHR ''.'',
             re_at_least 2 (Class False (lower_letters @ upper_letters))]"

text \<open>\<^verbatim>\<open>/[\+]?[1-9]?[0-9]{10,11}/g\<close>\<close>

definition phone_re :: re where
  "phone_re =
     re_seq [Opt (Class False ''+''), Opt (Class False ''123456789''),
             re_rep 10 (Class False digits), Opt (Class False digits)]"

text \<open>\<^verbatim>\<open>/https?:\/\/[^\s]+/g\<close>\<close>

definition url_re :: re where
  "url_re = re_seq [re_str ''http'', Opt (re_lit CHR ''s''), re_str ''://'',
                    re_plus (Class True space_chars)]"

text \<open>The syntax characters of a pattern, which are also the members of the class of
  \<^verbatim>\<open>/[.*+?^${}()|[\]\\]/g\<close>.\<close>

definition syntax_chars :: string where
  "syntax_chars = ''.*+?^${}()|[]'' @ [CHR 0x5C]"

definition syntax_char_re :: re where
  "syntax_char_re = Class False syntax_chars"

section \<open>The host: file system, path library, parsers, console\<close>

text \<open>
  The tools reach the outside through Node's \<open>fs\<close> and \<open>path\<close> modules, \<open>JSON\<close>,
  the PDF parser and the console.  Their behaviour is a parameter of the model; a call
  that throws returns \<open>Inl\<close> with the message of the error.
\<close>

record host =
  readdirSync :: "string \<Rightarrow> string + string list"
  readFileSync :: "string \<Rightarrow> string + string"
  extname :: "string \<Rightarrow> string"
  pdf_text :: "string \<Rightarrow> string + string"
  json_reformat :: "string \<Rightarrow> string option"

text \<open>
  \<open>pdf_text h p\<close> stands for \<open>pdfParse.pdf(fs.readFileSync(p))\<close> and its \<open>text\<close>
  field, \<open>json_reformat h raw\<close> for \<open>JSON.stringify(JSON.parse(raw), null, 2)\<close>,
  which is \<open>None\<close> when \<open>JSON.parse\<close> throws.  What a tool does to the host is
  recorded as a list of effects.
\<close>

datatype effect =
    Readdir string bool
  | ReadFile string
  | ReadPdf string
  | ConsoleError string

fun is_fs_operation :: "effect \<Rightarrow> bool" where
  "is_fs_operation (ConsoleError _) = False"
| "is_fs_operation _ = True"

text \<open>A host for the examples: one directory \<open>docs\<close> with two files.\<close>

definition example_host :: host where
  "example_host =
     \<lparr>readdirSync = (\<lambda>p. if p = ''docs'' then Inr [''page.html'', ''notes.txt''] else Inl ''ENOENT''),
      readFileSync = (\<lambda>p. if p = ''docs/page.html''
                           then Inr ''<script>evil()</script><p>Hi <b>there</b></p>''
                           else Inl ''ENOENT''),
      extname = (\<lambda>p. if p = ''docs/page.html'' then ''.html'' else []),
      pdf_text = (\<lambda>p. Inl ''not a PDF''),
      json_reformat = (\<lambda>raw. None)\<rparr>"

section \<open>\<open>list_files\<close>\<close>

datatype list_files_result =
    ProtectedPath string string
  | Listing string "string list"
  | ListError string

definition list_files :: "host \<Rightarrow> string option \<Rightarrow> list_files_result \<times> effect list" where
  "list_files h generatedPath =
     (if generatedPath = Some ''.git'' \<or> generatedPath = Some ''node_modules''
      then (ProtectedPath ''Cannot list protected path'' (the generatedPath), [])
      else
        let targetPath = (case generatedPath of
                            None \<Rightarrow> ''.''
                          | Some p \<Rightarrow> if trim p \<noteq> [] then p else ''.'')
        in case readdirSync h targetPath of
             Inr output \<Rightarrow> (Listing targetPath output, [Readdir targetPath False])
           | Inl e \<Rightarrow> (ListError e, [Readdir targetPath False, ConsoleError ''Error listing files:'']))"

section \<open>\<open>extract_text_content\<close>\<close>

fun show_nat :: "nat \<Rightarrow> string" where
  "show_nat n = (if n < 10 then [digits ! n] else show_nat (n div 10) @ [digits ! (n mod 10)])"

declare show_nat.simps [simp del]

text \<open>The result is either \<open>{error, filePath}\<close> or \<open>{filePath, extractedText,
  wordCount, metadata}\<close>; of \<open>metadata\<close> the model keeps whether \<open>isPdf\<close> is set.\<close>

datatype extract_result =
    ExtractError string string
  | Extracted string string nat bool

text \<open>The \<open>.html\<close> and \<open>.htm\<close> branch: script elements go first, then every tag
  becomes a space, then runs of white space collapse, then the ends are trimmed.\<close>

definition html_to_text :: "string \<Rightarrow> string" where
  "html_to_text raw =
     trim (replace_g False spaces_re (\<lambda>_. '' '')
            (replace_g False tag_re (\<lambda>_. '' '')
              (replace_g True script_re (\<lambda>_. []) raw)))"

definition count_words :: "string \<Rightarrow> nat" where
  "count_words text = length (filter (\<lambda>w. w \<noteq> []) (split_re False spaces_re text))"

definition extract_text_content :: "host \<Rightarrow> string \<Rightarrow> extract_result \<times> effect list" where
  "extract_text_content h path =
     (if path = ''.git'' \<or> path = ''node_modules''
      then (ExtractError ''Cannot read protected path'' path, [])
      else
        let ext = toLowerCase (extname h path) in
        if ext = ''.pdf'' then
          (case pdf_text h path of
             Inl e \<Rightarrow> (ExtractError (''PDF parse error: '' @ e) path, [ReadPdf path])
           | Inr text \<Rightarrow>
               (Extracted path text (count_words text) True, [ReadPdf path]))
        else
          (case readFileSync h path of
             Inl e \<Rightarrow> (ExtractError e path, [ReadFile path])
           | Inr raw \<Rightarrow>
               let text =
                 (if ext = ''.json'' then
                    (case json_reformat h raw of Some pretty \<Rightarrow> pretty | None \<Rightarrow> raw)
                  else if ext = ''.csv'' then
                    ''CSV rows: '' @ show_nat (length (split_re False newline_re raw))
                      @ [CHR 0x0A, CHR 0x0A] @ raw
                  else if ext = ''.html'' \<or> ext = ''.htm'' then html_to_text raw
                  else raw)
               in (Extracted path text (count_words text) False, [ReadFile path])))"

section \<open>\<open>analyze_document\<close>\<close>

datatype analyzeType = Full | SummaryOnly | EntitiesOnly | TopicsOnly

text \<open>\<open>xs[i]\<close> on an array: \<open>undefined\<close> outside the array.\<close>

definition js_index :: "'a list \<Rightarrow> int \<Rightarrow> 'a option" where
  "js_index xs i = (if 0 \<le> i \<and> i < int (length xs) then Some (xs ! nat i) else None)"

text \<open>\<open>.filter(Boolean)\<close> on an array of strings and \<open>undefined\<close>s.\<close>

definition filter_Boolean :: "string option list \<Rightarrow> string list" where
  "filter_Boolean xs = concat (map (\<lambda>x. case x of None \<Rightarrow> [] | Some s \<Rightarrow> if s = [] then [] else [s]) xs)"

definition fragments_of :: "string \<Rightarrow> string list" where
  "fragments_of content =
     filter (\<lambda>s. 10 < length (trim s)) (split_re False sentence_end_re content)"

definition words_of :: "string \<Rightarrow> string list" where
  "words_of content =
     filter (\<lambda>w. w \<noteq> [])
       (split_re False spaces_re (replace_g False punctuation_re (\<lambda>_. []) (toLowerCase content)))"

definition summary_of :: "string list \<Rightarrow> string" where
  "summary_of fragments =
     (let summaryFragments =
            filter_Boolean [js_index fragments 0,
                            js_index fragments (int (length fragments) div 2),
                            js_index fragments (int (length fragments) - 1)]
      in join ''. '' (map trim summaryFragments) @ ''.'')"

text \<open>\<open>s.match(re) || []\<close>\<close>

definition match_or_empty :: "re \<Rightarrow> string \<Rightarrow> string list" where
  "match_or_empty r s = (case match_g False r s of None \<Rightarrow> [] | Some ms \<Rightarrow> ms)"

text \<open>\<open>[...new Set(xs)]\<close>: a set keeps its elements in the order of their first
  insertion.\<close>

fun set_add_all :: "'a list \<Rightarrow> 'a list \<Rightarrow> 'a list" where
  "set_add_all acc [] = acc"
| "set_add_all acc (x # xs) = set_add_all (if x \<in> set acc then acc else acc @ [x]) xs"

definition entities_of :: "string \<Rightarrow> string list" where
  "entities_of content =
     (let caps = match_or_empty caps_re content;
          emails = match_or_empty email_re content;
          phones = match_or_empty phone_re content;
          urls = match_or_empty url_re content
      in set_add_all [] (take 20 caps @ emails @ phones @ urls))"

definition stopWords :: "string list" where
  "stopWords =
     [''the'', ''a'', ''an'', ''and'', ''or'', ''but'', ''in'', ''on'', ''at'', ''to'', ''for'', ''of'',
      ''with'', ''by'', ''is'', ''are'', ''was'', ''were'', ''be'', ''been'', ''have'', ''has'', ''had'',
      ''do'', ''does'', ''did'', ''will'', ''would'', ''could'', ''should'']"

text \<open>
  \<open>freq\<close> is a plain object used as a table from words to counts: its own properties
  in the order of their creation.  The value under a key is a count or, for the key
  \<open>constructor\<close>, a string that is not a number: the first \<open>freq[w] || 0\<close> for that
  word reads the function \<open>Object\<close> inherited from the prototype, and \<open>+ 1\<close> turns
  it into a string.  For the word \<open>__proto__\<close> the read yields the prototype object
  and the assignment goes to the prototype's setter, which ignores a string: no own
  property appears.  No other property of \<open>Object.prototype\<close> can be a word, since
  words are lower-case.
\<close>

datatype count = Num nat | NotANumber

type_synonym freq = "(string \<times> count) list"

definition bump :: "freq \<Rightarrow> string \<Rightarrow> freq" where
  "bump freq w =
     (if w = ''__proto__'' then freq
      else case map_of freq w of
             Some v \<Rightarrow>
               map (\<lambda>(k, v). if k = w then (k, case v of Num n \<Rightarrow> Num (Suc n) | NotANumber \<Rightarrow> NotANumber)
                                else (k, v)) freq
           | None \<Rightarrow> freq @ [(w, if w = ''constructor'' then NotANumber else Num 1)])"

definition count_word :: "freq \<Rightarrow> string \<Rightarrow> freq" where
  "count_word freq w = (if 3 < length w \<and> w \<notin> set stopWords then bump freq w else freq)"

definition freq_of :: "string list \<Rightarrow> freq" where
  "freq_of words = foldl count_word [] words"

text \<open>
  \<open>Object.entries\<close> lists the own properties whose key is an array index (the
  canonical decimal form of an integer below \<open>2\<^sup>3\<^sup>2 - 1\<close>) first, in ascending numeric
  order, and then the other keys in the order of their creation.
\<close>

definition digit_value :: "char \<Rightarrow> int" where
  "digit_value c =
     (case map_of [(CHR ''0'', 0), (CHR ''1'', 1), (CHR ''2'', 2), (CHR ''3'', 3), (CHR ''4'', 4),
                   (CHR ''5'', 5), (CHR ''6'', 6), (CHR ''7'', 7), (CHR ''8'', 8), (CHR ''9'', 9)] c of
        Some d \<Rightarrow> d
      | None \<Rightarrow> 0)"

definition dec_value :: "string \<Rightarrow> int" where
  "dec_value w = foldl (\<lambda>a c. 10 * a + digit_value c) 0 w"

definition is_array_index :: "string \<Rightarrow> bool" where
  "is_array_index w =
     (w \<noteq> [] \<and> list_all (\<lambda>c. c \<in> set digits) w \<and> (hd w \<noteq> CHR ''0'' \<or> w = ''0'')
      \<and> dec_value w < 4294967295)"

definition Object_entries :: "freq \<Rightarrow> freq" where
  "Object_entries freq =
     sort_key (\<lambda>(k, v). dec_value k) (filter (\<lambda>(k, v). is_array_index k) freq)
       @ filter (\<lambda>(k, v). \<not> is_array_index k) freq"

text \<open>
  \<open>.sort(([,a], [,b]) => b - a)\<close>.  The sort is stable.  With a value that is not a
  number the comparator yields \<open>NaN\<close>, which counts as \<open>0\<close>: all entries compare
  equal when the counts are all the same, and the array is left as it is; otherwise the
  comparator is not consistent and the order of the result is implementation-defined.
\<close>

datatype 'a sorted = Sorted 'a | ImplementationDefined

definition counts_of :: "freq \<Rightarrow> nat list" where
  "counts_of es = concat (map (\<lambda>(k, v). case v of Num n \<Rightarrow> [n] | NotANumber \<Rightarrow> []) es)"

definition sort_by_count_desc :: "freq \<Rightarrow> freq sorted" where
  "sort_by_count_desc es =
     (if NotANumber \<notin> set (map snd es)
      then Sorted (sort_key (\<lambda>(k, v). case v of Num n \<Rightarrow> - int n | NotANumber \<Rightarrow> 0) es)
      else if length (remdups (counts_of es)) \<le> 1 then Sorted es
      else ImplementationDefined)"

definition topics_of :: "string list \<Rightarrow> string list sorted" where
  "topics_of words =
     (case sort_by_count_desc (Object_entries (freq_of words)) of
        Sorted es \<Rightarrow> Sorted (map fst (take 10 es))
      | ImplementationDefined \<Rightarrow> ImplementationDefined)"

record analysis =
  wordCount :: nat
  summary :: "string option"
  entities :: "string list option"
  topics :: "string list sorted option"

definition analyze_document :: "string \<Rightarrow> analyzeType \<Rightarrow> analysis" where
  "analyze_document content analyzeType =
     (let fragments = fragments_of content;
          words = words_of content
      in \<lparr>wordCount = length words,
          summary = (if analyzeType = Full \<or> analyzeType = SummaryOnly
                     then Some (summary_of fragments) else None),
          entities = (if analyzeType = Full \<or> analyzeType = EntitiesOnly
                      then Some (entities_of content) else None),
          topics = (if analyzeType = Full \<or> analyzeType = TopicsOnly
                    then Some (topics_of words) else None)\<rparr>)"

section \<open>\<open>search_document\<close>\<close>

text \<open>\<open>query.replace(/[.*+?^${}()|[\]\\]/g, "\\$&")\<close>: a backslash goes before every
  syntax character.\<close>

definition escape_query :: "string \<Rightarrow> string" where
  "escape_query query = replace_g False syntax_char_re (\<lambda>m. CHR 0x5C # m) query"

text \<open>
  \<open>new RegExp(pattern, "gi")\<close> for the patterns that the escaping can produce: a
  sequence of characters that are not syntax characters and of syntax characters
  behind a backslash, each of which matches itself.  Every other pattern is outside
  this fragment and is reported by \<open>Inl\<close>, as a pattern that does not parse is.
\<close>

fun parse_literals :: "string \<Rightarrow> re list option" where
  "parse_literals [] = Some []"
| "parse_literals [c] = (if c \<in> set syntax_chars then None else Some [re_lit c])"
| "parse_literals (c # d # cs) =
     (if c = CHR 0x5C then
        (if d \<in> set syntax_chars then map_option (Cons (re_lit d)) (parse_literals cs) else None)
      else if c \<in> set syntax_chars then None
      else map_option (Cons (re_lit c)) (parse_literals (d # cs)))"

definition new_RegExp :: "string \<Rightarrow> string + re" where
  "new_RegExp pattern =
     (case parse_literals pattern of
        None \<Rightarrow> Inl ''Invalid regular expression''
      | Some rs \<Rightarrow> Inr (re_seq rs))"

text \<open>\<open>re.exec(s)\<close> of a global regular expression whose \<open>lastIndex\<close> is \<open>i\<close>: the
  match, if any, as start and end index, and the new \<open>lastIndex\<close>.\<close>

definition re_exec :: "bool \<Rightarrow> re \<Rightarrow> string \<Rightarrow> nat \<Rightarrow> (nat \<times> nat) option \<times> nat" where
  "re_exec ic r s i =
     (case search_from ic r s i of
        None \<Rightarrow> (None, 0)
      | Some (b, e) \<Rightarrow> (Some (b, e), e))"

text \<open>An element \<open>{text, position}\<close> of \<open>matches\<close>.\<close>

record search_match =
  match_text :: string
  position :: nat

text \<open>
  The \<open>while ((m = re.exec(content)) !== null)\<close> loop.  Nothing bounds the number of
  its iterations: when a match is empty, \<open>lastIndex\<close> stays where it is.  \<open>None\<close>
  stands for a loop that does not end.
\<close>

partial_function (option) search_loop ::
  "re \<Rightarrow> string \<Rightarrow> int \<Rightarrow> nat \<Rightarrow> search_match list \<Rightarrow> search_match list option" where
  "search_loop re content contextLength lastIndex matches =
     (case re_exec True re content lastIndex of
        (None, _) \<Rightarrow> Some matches
      | (Some (index, e), lastIndex') \<Rightarrow>
          (let start = max 0 (int index - contextLength);
               end = min (int (length content)) (int index + int (e - index) + contextLength);
               text = trim (slice content start end)
           in search_loop re content contextLength lastIndex'
                (matches @ [\<lparr>match_text = text, position = index\<rparr>])))"

declare search_loop.simps [code]

datatype search_result =
    SearchError string
  | Found string "search_match list" nat

text \<open>The \<open>execute\<close> function; the result \<open>Found query matches totalMatches\<close> is the
  object \<open>{query, matches, totalMatches}\<close>.\<close>

definition search_document :: "string \<Rightarrow> string \<Rightarrow> int \<Rightarrow> search_result option" where
  "search_document content query contextLength =
     (case new_RegExp (escape_query query) of
        Inl e \<Rightarrow> Some (SearchError e)
      | Inr re \<Rightarrow>
          map_option (\<lambda>matches. Found query matches (length matches))
            (search_loop re content contextLength 0 []))"

text \<open>The input schema of the tool: \<open>contextLength: z.number().min(20).max(400)\<close>.\<close>

definition contextLength_in_schema :: "int \<Rightarrow> bool" where
  "contextLength_in_schema contextLength = (20 \<le> contextLength \<and> contextLength \<le> 400)"

section \<open>The request handler \<open>POST\<close>\<close>

text \<open>
  A value that \<open>JSON.parse\<close> can produce.  An object lists its own properties, each
  key once.  Numbers are kept abstract: the handler only asks whether a number is
  falsy (zero) and what its string form is, and both are parameters.
\<close>

datatype 'n json =
    JNull
  | JBool bool
  | JNum 'n
  | JStr string
  | JArr "'n json list"
  | JObj "(string \<times> 'n json) list"

record 'n numbers =
  is_zero :: "'n \<Rightarrow> bool"
  num_to_string :: "'n \<Rightarrow> string"

text \<open>For the examples: the numbers 0 and 1.\<close>

datatype example_number = N0 | N1

definition example_numbers :: "example_number numbers" where
  "example_numbers =
     \<lparr>is_zero = (\<lambda>n. n = N0), num_to_string = (\<lambda>n. if n = N0 then ''0'' else ''1'')\<rparr>"

text \<open>Reading one of the properties \<open>prompt\<close>, \<open>filePath\<close>, \<open>content\<close>, which no
  prototype defines: \<open>None\<close> is \<open>undefined\<close>.\<close>

definition property :: "'n json \<Rightarrow> string \<Rightarrow> 'n json option" where
  "property v key = (case v of JObj kvs \<Rightarrow> map_of kvs key | _ \<Rightarrow> None)"

definition truthy :: "'n numbers \<Rightarrow> 'n json option \<Rightarrow> bool" where
  "truthy N v =
     (case v of
        None \<Rightarrow> False
      | Some JNull \<Rightarrow> False
      | Some (JBool b) \<Rightarrow> b
      | Some (JNum n) \<Rightarrow> \<not> is_zero N n
      | Some (JStr s) \<Rightarrow> s \<noteq> []
      | Some (JArr _) \<Rightarrow> True
      | Some (JObj _) \<Rightarrow> True)"

text \<open>
  \<open>ToString\<close>, which a template literal applies to each value it interpolates.
  \<open>None\<close> is a \<open>TypeError\<close>: an object with an own property \<open>toString\<close> (which,
  coming from JSON, is not callable) has no primitive value.  An array joins the
  strings of its elements with commas, \<open>null\<close> counting as the empty string.
\<close>

fun ToString :: "'n numbers \<Rightarrow> 'n json \<Rightarrow> string option"
  and ToString_elements :: "'n numbers \<Rightarrow> 'n json list \<Rightarrow> string list option" where
  "ToString N JNull = Some ''null''"
| "ToString N (JBool b) = Some (if b then ''true'' else ''false'')"
| "ToString N (JNum n) = Some (num_to_string N n)"
| "ToString N (JStr s) = Some s"
| "ToString N (JArr vs) = map_option (join '','') (ToString_elements N vs)"
| "ToString N (JObj kvs) =
     (if ''toString'' \<in> set (map fst kvs) then None else Some ''[object Object]'')"
| "ToString_elements N [] = Some []"
| "ToString_elements N (v # vs) =
     (case (if v = JNull then Some [] else ToString N v) of
        None \<Rightarrow> None
      | Some s \<Rightarrow> map_option (Cons s) (ToString_elements N vs))"

text \<open>
  The handler ends with a response or with a rejection that it does not catch.  The
  agent is a parameter: given the prompt it returns the text of the model's answer, or
  throws.  The effects of the handler are its calls of the agent and what it logs.
\<close>

datatype 'n outcome =
    Rejected string
  | Response nat "'n json"

datatype 'n handler_effect =
    AgentCall "'n json"
  | Logged string

definition error_body :: "string \<Rightarrow> 'n json" where
  "error_body msg = JObj [(''error'', JStr msg)]"

definition fullPrompt_of ::
  "'n numbers \<Rightarrow> 'n json \<Rightarrow> 'n json option \<Rightarrow> 'n json option \<Rightarrow> 'n json option" where
  "fullPrompt_of N prompt filePath content =
     (if truthy N filePath then
        (case (ToString N prompt, ToString N (the filePath)) of
           (Some p, Some f) \<Rightarrow> Some (JStr (p @ '' (Document: '' @ f @ '')''))
         | _ \<Rightarrow> None)
      else if truthy N content then
        (case (ToString N prompt, ToString N (the content)) of
           (Some p, Some c) \<Rightarrow>
             Some (JStr (p @ [CHR 0x0A, CHR 0x0A] @ ''Document content:'' @ [CHR 0x0A] @ c))
         | _ \<Rightarrow> None)
      else Some prompt)"

definition POST ::
  "'n numbers \<Rightarrow> ('n json \<Rightarrow> string + string) \<Rightarrow> string + 'n json
     \<Rightarrow> 'n outcome \<times> 'n handler_effect list" where
  "POST N documentAgent request_json =
     (case request_json of
        Inl e \<Rightarrow> (Rejected e, [])
      | Inr body \<Rightarrow>
          if body = JNull then (Rejected ''TypeError'', [])
          else
            let prompt = property body ''prompt'';
                filePath = property body ''filePath'';
                content = property body ''content''
            in if \<not> truthy N prompt
               then (Response 400 (error_body ''Prompt is required''), [])
               else
                 (case fullPrompt_of N (the prompt) filePath content of
                    None \<Rightarrow>
                      (Response 500 (error_body ''An error occurred processing the document''),
                       [Logged ''TypeError''])
                  | Some fullPrompt \<Rightarrow>
                      (case documentAgent fullPrompt of
                         Inr response \<Rightarrow>
                           (Response 200 (JObj [(''response'', JStr response)]),
                            [AgentCall fullPrompt])
                       | Inl e \<Rightarrow>
                           (Response 500 (error_body ''An error occurred processing the document''),
                            [AgentCall fullPrompt, Logged e]))))"

section \<open>Properties of \<open>list_files\<close>\<close>

text \<open>The directory that \<open>list_files\<close> reads: the path it was given, or \<open>.\<close> when
  there is none or it is blank.\<close>

definition target_path :: "string option \<Rightarrow> string" where
  "target_path generatedPath =
     (case generatedPath of None \<Rightarrow> ''.'' | Some p \<Rightarrow> if trim p = [] then ''.'' else p)"

text \<open>
  C8.  When the path is exactly \<open>.git\<close> or exactly \<open>node_modules\<close>, \<open>list_files\<close>
  returns the error object and has no effect at all, so it performs no file-system
  operation.  For every other path, \<open>null\<close> included, its only file-system operation
  is one non-recursive \<open>readdirSync\<close> of the target directory, whose outcome decides
  between the listing and the error result.
\<close>

theorem list_files_protected:
  "(generatedPath = Some ''.git'' \<or> generatedPath = Some ''node_modules'' \<longrightarrow>
      list_files h generatedPath
        = (ProtectedPath ''Cannot list protected path'' (the generatedPath), []))
   \<and> (generatedPath \<noteq> Some ''.git'' \<and> generatedPath \<noteq> Some ''node_modules'' \<longrightarrow>
        filter is_fs_operation (snd (list_files h generatedPath))
          = [Readdir (target_path generatedPath) False]
        \<and> (case readdirSync h (target_path generatedPath) of
             Inr output \<Rightarrow> fst (list_files h generatedPath) = Listing (target_path generatedPath) output
           | Inl e \<Rightarrow> fst (list_files h generatedPath) = ListError e))"
  by (auto simp: list_files_def target_path_def Let_def split: option.splits sum.splits)

theorem list_files_protected_witness:
  "list_files example_host (Some ''.git'') = (ProtectedPath ''Cannot list protected path'' ''.git'', [])
   \<and> list_files example_host (Some ''node_modules'')
       = (ProtectedPath ''Cannot list protected path'' ''node_modules'', [])
   \<and> filter is_fs_operation (snd (list_files example_host (Some ''docs'')))
       = [Readdir ''docs'' False]
   \<and> fst (list_files example_host (Some ''docs'')) = Listing ''docs'' [''page.html'', ''notes.txt'']"
  using list_files_protected[of "Some ''.git''" example_host]
        list_files_protected[of "Some ''node_modules''" example_host]
        list_files_protected[of "Some ''docs''" example_host]
  by (simp add: target_path_def example_host_def trim_def is_space_def space_chars_def)

section \<open>Properties of \<open>extract_text_content\<close>\<close>

lemma html_example: "html_to_text ''<script>evil()</script><p>Hi <b>there</b></p>'' = ''Hi there''"
  by code_simp

lemma count_words_example: "count_words ''Hi there'' = 2"
  by code_simp

text \<open>What \<open>trim\<close> returns neither begins nor ends with white space.\<close>

lemma trim_ends: "trim w = [] \<or> (\<not> is_space (hd (trim w)) \<and> \<not> is_space (last (trim w)))"
proof (cases "trim w = []")
  case True
  then show ?thesis by simp
next
  case False
  let ?a = "dropWhile is_space w"
  let ?b = "dropWhile is_space (rev ?a)"
  from False have b: "?b \<noteq> []" by (simp add: trim_def)
  have a: "?a \<noteq> []"
  proof
    assume "?a = []"
    then have "?b = []" by (simp only: rev.simps dropWhile.simps)
    with b show False by (rule notE)
  qed
  have "\<not> is_space (hd ?b)" using b by (rule hd_dropWhile)
  then have l: "\<not> is_space (last (trim w))" using b by (simp add: trim_def last_rev)
  obtain us where us: "rev ?a = us @ ?b" by (metis takeWhile_dropWhile_id)
  have "last ?b = last (us @ ?b)" using b by (rule last_appendR[symmetric])
  also have "\<dots> = last (rev ?a)" by (simp only: us[symmetric])
  also have "\<dots> = hd ?a" using a by (simp only: last_rev)
  finally have "last ?b = hd ?a" .
  moreover have "hd (trim w) = last ?b" using b by (simp only: trim_def hd_rev)
  ultimately have "hd (trim w) = hd ?a" by (rule trans[rotated])
  moreover have "\<not> is_space (hd ?a)" using a by (rule hd_dropWhile)
  ultimately show ?thesis using l by simp
qed

text \<open>
  C5.  For every file content \<open>raw\<close>: when the path is not one of the two protected
  names, its extension is \<open>.html\<close> or \<open>.htm\<close> (in any case) and reading the file
  yields \<open>raw\<close>, the tool reads the file once and returns as extracted text what is
  left of \<open>raw\<close> after the script elements are removed first, every tag is replaced
  by a space next, every run of white space is collapsed to one space then, and the
  ends are trimmed last; that text neither begins nor ends with white space, the word
  count is the number of its words, and the PDF flag is not set.  On the content
  \<^verbatim>\<open><script>evil()</script><p>Hi <b>there</b></p>\<close> the extracted text is exactly
  \<open>Hi there\<close>, with a word count of 2.
\<close>

theorem extract_html:
  "path \<noteq> ''.git'' \<Longrightarrow> path \<noteq> ''node_modules'' \<Longrightarrow>
   toLowerCase (extname h path) = ''.html'' \<or> toLowerCase (extname h path) = ''.htm'' \<Longrightarrow>
   readFileSync h path = Inr raw \<Longrightarrow>
   (\<exists>text. text = trim (replace_g False spaces_re (\<lambda>_. '' '')
                        (replace_g False tag_re (\<lambda>_. '' '')
                          (replace_g True script_re (\<lambda>_. []) raw)))
      \<and> extract_text_content h path
          = (Extracted path text (length (filter (\<lambda>w. w \<noteq> []) (split_re False spaces_re text))) False,
             [ReadFile path])
      \<and> (text = [] \<or> (\<not> is_space (hd text) \<and> \<not> is_space (last text))))
   \<and> (raw = ''<script>evil()</script><p>Hi <b>there</b></p>'' \<longrightarrow>
        extract_text_content h path = (Extracted path ''Hi there'' 2 False, [ReadFile path]))"
proof -
  assume a: "path \<noteq> ''.git''" "path \<noteq> ''node_modules''"
    "toLowerCase (extname h path) = ''.html'' \<or> toLowerCase (extname h path) = ''.htm''"
    "readFileSync h path = Inr raw"
  have r: "extract_text_content h path
             = (Extracted path (html_to_text raw) (count_words (html_to_text raw)) False, [ReadFile path])"
    using a by (auto simp: extract_text_content_def Let_def)
  have 1: "\<exists>text. text = trim (replace_g False spaces_re (\<lambda>_. '' '')
                        (replace_g False tag_re (\<lambda>_. '' '')
                          (replace_g True script_re (\<lambda>_. []) raw)))
      \<and> extract_text_content h path
          = (Extracted path text (length (filter (\<lambda>w. w \<noteq> []) (split_re False spaces_re text))) False,
             [ReadFile path])
      \<and> (text = [] \<or> (\<not> is_space (hd text) \<and> \<not> is_space (last text)))"
    unfolding r using trim_ends by (simp add: html_to_text_def count_words_def)
  have 2: "raw = ''<script>evil()</script><p>Hi <b>there</b></p>'' \<longrightarrow>
        extract_text_content h path = (Extracted path ''Hi there'' 2 False, [ReadFile path])"
    unfolding r by (simp add: html_example count_words_example)
  from 1 2 show ?thesis by (rule conjI)
qed

theorem extract_html_witness:
  "extract_text_content example_host ''docs/page.html''
     = (Extracted ''docs/page.html'' ''Hi there'' 2 False, [ReadFile ''docs/page.html''])"
proof -
  have p: "''docs/page.html'' \<noteq> ''.git''" "''docs/page.html'' \<noteq> ''node_modules''"
    by simp_all
  have "toLowerCase (extname example_host ''docs/page.html'') = ''.html''"
    by code_simp
  then have e: "toLowerCase (extname example_host ''docs/page.html'') = ''.html''
                \<or> toLowerCase (extname example_host ''docs/page.html'') = ''.htm''" ..
  have r: "readFileSync example_host ''docs/page.html''
             = Inr ''<script>evil()</script><p>Hi <b>there</b></p>''"
    by (simp add: example_host_def)
  from extract_html[OF p e r, THEN conjunct2] show ?thesis by simp
qed

text \<open>The order of the stages shows in the result: a tag inside a script element goes
  with the script, and the space that replaces a tag merges with its neighbours.\<close>

lemma html_stage_order:
  "html_to_text ''a<b>  c <SCRIPT type=x>d<e>f</Script >g</script>h<br/>'' = ''a c h''"
  by code_simp

section \<open>Properties of the request handler\<close>

text \<open>Whenever the body parses to a value other than \<open>null\<close>, the handler answers,
  and an answer that is not a success is one of the two error responses.\<close>

lemma POST_parsed_body_responds:
  "body \<noteq> JNull \<Longrightarrow>
   \<exists>status b. fst (POST N documentAgent (Inr body)) = Response status b
     \<and> (status = 200 \<or> status = 400 \<and> b = error_body ''Prompt is required''
          \<or> status = 500 \<and> b = error_body ''An error occurred processing the document'')"
  by (auto simp: POST_def Let_def split: option.splits sum.splits)

text \<open>
  C1.  The claim fails for a body that is not JSON: \<open>request.json()\<close> is awaited
  before the \<open>try\<close> block, so its rejection leaves the handler uncaught, no response
  is built and nothing is logged.
\<close>

theorem POST_malformed_body_rejects:
  "POST N documentAgent (Inl e) = (Rejected e, [])"
  by (simp add: POST_def)

text \<open>
  C9.  For a body other than \<open>null\<close> whose \<open>prompt\<close> is falsy (absent, \<open>null\<close>,
  \<open>false\<close>, zero or the empty string) the handler answers 400 with the body
  \<open>{"error": "Prompt is required"}\<close> and has no effect: the agent is not called.
\<close>

theorem POST_falsy_prompt:
  "body \<noteq> JNull \<Longrightarrow> \<not> truthy N (property body ''prompt'') \<Longrightarrow>
   POST N documentAgent (Inr body) = (Response 400 (error_body ''Prompt is required''), [])"
  by (simp add: POST_def Let_def)

theorem POST_falsy_prompt_witness:
  "POST example_numbers (\<lambda>p. Inr ''answer'') (Inr (JObj [(''prompt'', JStr [])]))
     = (Response 400 (JObj [(''error'', JStr ''Prompt is required'')]), [])
   \<and> POST example_numbers (\<lambda>p. Inr ''answer'') (Inr (JObj [(''prompt'', JNum N0)]))
     = (Response 400 (JObj [(''error'', JStr ''Prompt is required'')]), [])
   \<and> POST example_numbers (\<lambda>p. Inr ''answer'') (Inr (JObj [(''prompt'', JBool False)]))
     = (Response 400 (JObj [(''error'', JStr ''Prompt is required'')]), [])
   \<and> POST example_numbers (\<lambda>p. Inr ''answer'') (Inr (JObj [(''prompt'', JNull)]))
     = (Response 400 (JObj [(''error'', JStr ''Prompt is required'')]), [])
   \<and> POST example_numbers (\<lambda>p. Inr ''answer'') (Inr (JObj [(''content'', JStr ''text'')]))
     = (Response 400 (JObj [(''error'', JStr ''Prompt is required'')]), [])"
  using POST_falsy_prompt[of "JObj [(''prompt'', JStr [])]" example_numbers "\<lambda>p. Inr ''answer''"]
        POST_falsy_prompt[of "JObj [(''prompt'', JNum N0)]" example_numbers "\<lambda>p. Inr ''answer''"]
        POST_falsy_prompt[of "JObj [(''prompt'', JBool False)]" example_numbers "\<lambda>p. Inr ''answer''"]
        POST_falsy_prompt[of "JObj [(''prompt'', JNull)]" example_numbers "\<lambda>p. Inr ''answer''"]
        POST_falsy_prompt[of "JObj [(''content'', JStr ''text'')]" example_numbers "\<lambda>p. Inr ''answer''"]
  by (simp add: truthy_def property_def example_numbers_def error_body_def)

section \<open>Properties of \<open>search_document\<close>\<close>

text \<open>The example of C2 as the claim states it: with three characters of context the
  text of the match is not \<open>bcXYZde\<close>.\<close>

theorem search_example_counterexample:
  "search_document ''abcXYZdef'' ''XYZ'' 3
     \<noteq> Some (Found ''XYZ'' [\<lparr>match_text = ''bcXYZde'', position = 3\<rparr>] 1)"
  by code_simp

text \<open>
  C2, amended.  On the content \<open>abcXYZdef\<close>, the query \<open>XYZ\<close> and a context length of
  3, the \<open>execute\<close> function returns exactly one match, at position 3, whose text is
  the whole content \<open>abcXYZdef\<close>: three characters on each side of the match.
\<close>

theorem search_example:
  "search_document ''abcXYZdef'' ''XYZ'' 3
     = Some (Found ''XYZ'' [\<lparr>match_text = ''abcXYZdef'', position = 3\<rparr>] 1)"
  by code_simp

text \<open>The text \<open>bcXYZde\<close> is what a context length of 2 gives; the tool's input
  schema admits neither 2 nor 3.\<close>

lemma search_example_context_2:
  "search_document ''abcXYZdef'' ''XYZ'' 2
     = Some (Found ''XYZ'' [\<lparr>match_text = ''bcXYZde'', position = 3\<rparr>] 1)"
  by code_simp

lemma search_example_outside_schema:
  "\<not> contextLength_in_schema 2 \<and> \<not> contextLength_in_schema 3"
  by (simp add: contextLength_in_schema_def)

subsection \<open>The escaped query as a regular expression\<close>

lemma splice_skip:
  assumes "i < length s" and "\<forall>(b, e) \<in> set (take 1 ms). i < b"
  shows "splice_matches s f i ms = s ! i # splice_matches s f (Suc i) ms"
proof (cases ms)
  case Nil
  with assms(1) show ?thesis by (simp add: Cons_nth_drop_Suc)
next
  case (Cons m ms')
  obtain b e where m: "m = (b, e)" by (cases m)
  with Cons assms(2) have "i < b" by simp
  then have "b - i = Suc (b - Suc i)" by simp
  moreover have "drop i s = s ! i # drop (Suc i) s"
    using assms(1) by (simp add: Cons_nth_drop_Suc)
  ultimately have "take (b - i) (drop i s) = s ! i # take (b - Suc i) (drop (Suc i) s)"
    by simp
  with Cons m show ?thesis by (simp add: substring_def)
qed

lemma search_from_class_hit:
  assumes "i < length s" "c = s ! i" "c \<in> set cs"
  shows "search_from False (Class False cs) s i = Some (i, Suc i)"
  using assms by (simp add: search_from.simps[of _ _ s i] ends.simps class_has_def)

lemma search_from_class_miss:
  assumes "i < length s" "s ! i \<notin> set cs"
  shows "search_from False (Class False cs) s i = search_from False (Class False cs) s (Suc i)"
  using assms by (simp add: search_from.simps[of _ _ s i] ends.simps class_has_def)

lemma search_from_class_end:
  "search_from False (Class False cs) s (length s) = None"
  by (simp add: search_from.simps[of _ _ s "length s"] search_from.simps[of _ _ s "Suc (length s)"]
        ends.simps)

lemma replace_g_class_from:
  "i \<le> length s \<Longrightarrow>
   splice_matches s f i (global_matches False (Class False cs) s i)
     = concat (map (\<lambda>c. if c \<in> set cs then f [c] else [c]) (drop i s))"
proof (induction "length s - i" arbitrary: i)
  case 0
  then have "i = length s" by simp
  then show ?case
    by (simp add: global_matches.simps[of _ _ s "length s"] search_from_class_end)
next
  case (Suc n)
  then have i: "i < length s" and n: "n = length s - Suc i" by simp_all
  have IH: "splice_matches s f (Suc i) (global_matches False (Class False cs) s (Suc i))
              = concat (map (\<lambda>c. if c \<in> set cs then f [c] else [c]) (drop (Suc i) s))"
    using Suc.hyps(1)[OF n] i by simp
  have d: "drop i s = s ! i # drop (Suc i) s"
    using i by (simp add: Cons_nth_drop_Suc)
  show ?case
  proof (cases "s ! i \<in> set cs")
    case True
    have "global_matches False (Class False cs) s i
            = (i, Suc i) # global_matches False (Class False cs) s (Suc i)"
      using search_from_class_hit[OF i refl True]
      by (simp add: global_matches.simps[of _ _ s i])
    moreover have "substring s i (Suc i) = [s ! i]"
      using i by (simp add: substring_def take_Suc_conv_app_nth d)
    ultimately show ?thesis
      using True IH by (simp add: d substring_def)
  next
    case False
    have eq: "global_matches False (Class False cs) s i = global_matches False (Class False cs) s (Suc i)"
      using search_from_class_miss[OF i False]
      by (simp add: global_matches.simps[of _ _ s i] global_matches.simps[of _ _ s "Suc i"])
    have "\<forall>(b, e) \<in> set (take 1 (global_matches False (Class False cs) s (Suc i))). i < b"
    proof (cases "search_from False (Class False cs) s (Suc i)")
      case None
      then show ?thesis by (simp add: global_matches.simps[of _ _ s "Suc i"])
    next
      case (Some m)
      obtain b e where m: "m = (b, e)" by (cases m)
      from search_from_bounds[of False "Class False cs" s "Suc i" b e] Some m have "i < b" by simp
      with Some m show ?thesis by (simp add: global_matches.simps[of _ _ s "Suc i"])
    qed
    from splice_skip[OF i this] show ?thesis
      using False IH eq by (simp add: d)
  qed
qed

lemma replace_g_class:
  "replace_g False (Class False cs) f s = concat (map (\<lambda>c. if c \<in> set cs then f [c] else [c]) s)"
  using replace_g_class_from[of 0 s f cs] by (simp add: replace_g_def)

lemma backslash_syntax: "CHR 0x5C \<in> set syntax_chars"
  by (simp add: syntax_chars_def)

lemma parse_literals_escaped_char:
  "parse_literals ((if c \<in> set syntax_chars then [CHR 0x5C, c] else [c]) @ rest)
     = map_option (Cons (re_lit c)) (parse_literals rest)"
proof (cases "c \<in> set syntax_chars")
  case True
  then show ?thesis by simp
next
  case False
  then have "c \<noteq> CHR 0x5C" using backslash_syntax by auto
  with False show ?thesis by (cases rest) simp_all
qed

lemma parse_literals_escaped:
  "parse_literals (concat (map (\<lambda>c. if c \<in> set syntax_chars then [CHR 0x5C, c] else [c]) q))
     = Some (map re_lit q)"
proof (induction q)
  case Nil
  show ?case by simp
next
  case (Cons c q)
  have "parse_literals (concat (map (\<lambda>c. if c \<in> set syntax_chars then [CHR 0x5C, c] else [c]) (c # q)))
          = parse_literals ((if c \<in> set syntax_chars then [CHR 0x5C, c] else [c])
              @ concat (map (\<lambda>c. if c \<in> set syntax_chars then [CHR 0x5C, c] else [c]) q))"
    by simp
  also have "\<dots> = map_option (Cons (re_lit c)) (Some (map re_lit q))"
    unfolding parse_literals_escaped_char Cons.IH ..
  finally show ?case by simp
qed

lemma new_RegExp_escape_query:
  "new_RegExp (escape_query query) = Inr (re_seq (map re_lit query))"
  by (simp add: new_RegExp_def escape_query_def syntax_char_re_def replace_g_class
        parse_literals_escaped)

subsection \<open>The matches of a query\<close>

text \<open>The query occurs in the content at offset \<open>i\<close>, letter case aside.\<close>

definition occurs_at :: "string \<Rightarrow> string \<Rightarrow> nat \<Rightarrow> bool" where
  "occurs_at query content i =
     (i + length query \<le> length content
      \<and> map canonicalize (substring content i (i + length query)) = map canonicalize query)"

lemma ends_literal:
  "i \<le> length s \<Longrightarrow>
   ends True s (re_seq (map re_lit q)) i = (if occurs_at q s i then [i + length q] else [])"
proof (induction q arbitrary: i)
  case Nil
  then show ?case by (simp add: re_seq_def ends.simps occurs_at_def substring_def)
next
  case (Cons c q)
  have seq: "re_seq (map re_lit (c # q)) = Cat (re_lit c) (re_seq (map re_lit q))"
    by (simp add: re_seq_def)
  have head: "ends True s (re_lit c) i
                = (if i < length s \<and> canonicalize (s ! i) = canonicalize c then [Suc i] else [])"
    by (simp add: re_lit_def ends.simps class_has_def)
  have occ: "occurs_at (c # q) s i
               \<longleftrightarrow> i < length s \<and> canonicalize (s ! i) = canonicalize c \<and> occurs_at q s (Suc i)"
  proof (cases "i < length s")
    case True
    then have "drop i s = s ! i # drop (Suc i) s" by (simp add: Cons_nth_drop_Suc)
    then show ?thesis using True by (auto simp: occurs_at_def substring_def)
  next
    case False
    then show ?thesis by (simp add: occurs_at_def)
  qed
  show ?case
  proof (cases "i < length s")
    case True
    then show ?thesis
      unfolding seq ends.simps head using Cons.IH[of "Suc i"] occ by simp
  next
    case False
    then show ?thesis
      unfolding seq ends.simps head using occ by simp
  qed
qed

lemma search_from_head:
  "search_from ic r s i = Some (b, e) \<Longrightarrow> ends ic s r b \<noteq> [] \<and> e = hd (ends ic s r b)"
proof (induction ic r s i rule: search_from.induct)
  case (1 ic r s i)
  show ?case
  proof (cases "ends ic s r i")
    case Nil
    with "1.prems" have "\<not> length s < i" and "search_from ic r s (Suc i) = Some (b, e)"
      by (auto simp: search_from.simps[of ic r s i] split: if_splits)
    with "1.IH" Nil show ?thesis by simp
  next
    case (Cons e' es)
    with "1.prems" have "b = i" "e = e'"
      by (auto simp: search_from.simps[of ic r s i] split: if_splits)
    with Cons show ?thesis by simp
  qed
qed

lemma search_from_literal:
  assumes "search_from True (re_seq (map re_lit q)) s i = Some (b, e)"
  shows "i \<le> b \<and> occurs_at q s b \<and> e = b + length q"
proof -
  from search_from_head[OF assms] have "ends True s (re_seq (map re_lit q)) b \<noteq> []"
    and "e = hd (ends True s (re_seq (map re_lit q)) b)" by simp_all
  moreover from search_from_bounds[OF assms] have b: "i \<le> b" "b \<le> length s" by simp_all
  ultimately have "occurs_at q s b \<and> e = b + length q"
    by (simp add: ends_literal split: if_splits)
  with b show ?thesis by simp
qed

text \<open>The context window of a match at offset \<open>i\<close>: \<open>contextLength\<close> characters
  on each side of the match, clamped to the content.\<close>

definition window_of :: "string \<Rightarrow> string \<Rightarrow> int \<Rightarrow> nat \<Rightarrow> string" where
  "window_of content query contextLength i =
     slice content (max 0 (int i - contextLength))
       (min (int (length content)) (int i + int (length query) + contextLength))"

definition match_at :: "string \<Rightarrow> string \<Rightarrow> int \<Rightarrow> search_match \<Rightarrow> bool" where
  "match_at content query contextLength m =
     (occurs_at query content (position m)
      \<and> match_text m = trim (window_of content query contextLength (position m)))"

lemma search_loop_literal:
  assumes "q \<noteq> []"
  shows "\<exists>ms. search_loop (re_seq (map re_lit q)) content c i acc = Some (acc @ ms)
              \<and> (\<forall>m \<in> set ms. match_at content q c m)"
proof (induction "Suc (length content) - i" arbitrary: i acc rule: less_induct)
  case less
  let ?re = "re_seq (map re_lit q)"
  show ?case
  proof (cases "search_from True ?re content i")
    case None
    then have "search_loop ?re content c i acc = Some acc"
      by (subst search_loop.simps) (simp add: re_exec_def)
    then show ?thesis by simp
  next
    case (Some be)
    obtain b e where be: "be = (b, e)" by (cases be)
    from search_from_literal[of q content i b e] Some be
    have b: "i \<le> b" and occ: "occurs_at q content b" and e: "e = b + length q" by simp_all
    let ?m = "\<lparr>match_text = trim (window_of content q c b), position = b\<rparr>"
    have step: "search_loop ?re content c i acc = search_loop ?re content c e (acc @ [?m])"
      by (subst search_loop.simps)
         (simp add: re_exec_def Some be e Let_def window_of_def)
    have "0 < length q" using assms by simp
    moreover have "e \<le> length content" using occ e by (simp add: occurs_at_def)
    ultimately have "Suc (length content) - e < Suc (length content) - i"
      using b e by linarith
    from less[OF this, of "acc @ [?m]"] obtain ms
      where ms: "search_loop ?re content c e (acc @ [?m]) = Some ((acc @ [?m]) @ ms)"
        and good: "\<forall>m \<in> set ms. match_at content q c m" by blast
    have "match_at content q c ?m" using occ by (simp add: match_at_def)
    with ms good step show ?thesis by (intro exI[of _ "?m # ms"]) simp
  qed
qed

lemma length_dropWhile_less:
  "xs \<noteq> [] \<Longrightarrow> P (hd xs) \<Longrightarrow> length (dropWhile P xs) < length xs"
  by (cases xs) (simp_all add: le_imp_less_Suc length_dropWhile_le)

lemma length_trim_le: "length (trim w) \<le> length w"
  unfolding trim_def
  using length_dropWhile_le[of is_space "rev (dropWhile is_space w)"]
        length_dropWhile_le[of is_space w] by simp

lemma length_trim_less:
  assumes "w \<noteq> []" and "is_space (hd w) \<or> is_space (last w)"
  shows "length (trim w) < length w"
proof (cases "is_space (hd w)")
  case True
  have "length (trim w) \<le> length (dropWhile is_space w)"
    unfolding trim_def using length_dropWhile_le[of is_space "rev (dropWhile is_space w)"] by simp
  with length_dropWhile_less[OF assms(1), of is_space] True show ?thesis by simp
next
  case False
  with assms have l: "is_space (last w)" by simp
  from False assms(1) have d: "dropWhile is_space w = w" by (cases w) simp_all
  have "rev w \<noteq> []" "is_space (hd (rev w))" using assms(1) l by (simp_all add: hd_rev)
  from length_dropWhile_less[of "rev w" is_space, OF this] show ?thesis by (simp add: trim_def d)
qed

text \<open>For a query that is not empty the loop ends, and its matches are as follows.\<close>

lemma search_matches_nonempty_query:
  "query \<noteq> [] \<Longrightarrow>
   \<exists>matches. search_document content query contextLength
                = Some (Found query matches (length matches))
     \<and> (\<forall>m \<in> set matches.
           occurs_at query content (position m)
           \<and> match_text m = trim (window_of content query contextLength (position m))
           \<and> length (match_text m) \<le> length (window_of content query contextLength (position m))
           \<and> (window_of content query contextLength (position m) \<noteq> []
               \<and> (is_space (hd (window_of content query contextLength (position m)))
                    \<or> is_space (last (window_of content query contextLength (position m))))
               \<longrightarrow> length (match_text m)
                     < length (window_of content query contextLength (position m))))"
proof -
  assume "query \<noteq> []"
  from search_loop_literal[OF this, of content contextLength 0 "[]"] obtain ms
    where ms: "search_loop (re_seq (map re_lit query)) content contextLength 0 [] = Some ms"
      and good: "\<forall>m \<in> set ms. match_at content query contextLength m" by auto
  have "search_document content query contextLength = Some (Found query ms (length ms))"
    by (simp add: search_document_def new_RegExp_escape_query ms)
  moreover have "\<forall>m \<in> set ms.
           occurs_at query content (position m)
           \<and> match_text m = trim (window_of content query contextLength (position m))
           \<and> length (match_text m) \<le> length (window_of content query contextLength (position m))
           \<and> (window_of content query contextLength (position m) \<noteq> []
               \<and> (is_space (hd (window_of content query contextLength (position m)))
                    \<or> is_space (last (window_of content query contextLength (position m))))
               \<longrightarrow> length (match_text m)
                     < length (window_of content query contextLength (position m)))"
    using good length_trim_le length_trim_less by (auto simp: match_at_def)
  ultimately show ?thesis by blast
qed

text \<open>For the empty query the pattern matches the empty string at \<open>lastIndex\<close>,
  which then does not move: the loop does not end and the call does not return.\<close>

lemma search_from_Empty:
  "i \<le> length s \<Longrightarrow> search_from ic Empty s i = Some (i, i)"
  by (simp add: search_from.simps[of ic Empty s i] ends.simps)

lemma search_loop_Empty_diverges:
  assumes "search_loop Empty content c i acc = Some ms"
  shows "length content < i"
proof -
  have "Empty = Empty \<longrightarrow> length content < i"
  proof (rule search_loop.raw_induct[where P = "\<lambda>re content c i acc ms. re = Empty \<longrightarrow> length content < i",
                                     OF _ assms])
    fix loop :: "re \<Rightarrow> string \<Rightarrow> int \<Rightarrow> nat \<Rightarrow> search_match list \<Rightarrow> search_match list option"
    fix re content c i acc ms
    assume IH: "\<And>re content c i acc ms. loop re content c i acc = Some ms
                  \<Longrightarrow> re = Empty \<longrightarrow> length content < i"
      and step: "(case re_exec True re content i of
                    (None, x) \<Rightarrow> Some acc
                  | (Some (index, e), x) \<Rightarrow>
                      let start = max 0 (int index - c);
                          end = min (int (length content)) (int index + int (e - index) + c);
                          text = trim (slice content start end)
                      in loop re content c x (acc @ [\<lparr>match_text = text, position = index\<rparr>]))
                 = Some ms"
    show "re = Empty \<longrightarrow> length content < i"
    proof (intro impI, rule ccontr)
      assume re: "re = Empty" and "\<not> length content < i"
      then have i: "i \<le> length content" by simp
      from step obtain acc' where "loop Empty content c i acc' = Some ms"
        unfolding re re_exec_def search_from_Empty[OF i] by (simp add: Let_def)
      from IH[OF this] i show False by simp
    qed
  qed
  then show ?thesis by simp
qed

lemma search_document_empty_query: "search_document content [] contextLength = None"
proof (cases "search_loop Empty content contextLength 0 []")
  case None
  then show ?thesis
    by (simp add: search_document_def new_RegExp_escape_query re_seq_def)
next
  case (Some ms)
  from search_loop_Empty_diverges[OF this] show ?thesis by simp
qed

text \<open>
  C10.  Whatever the call returns is the object \<open>{query, matches, totalMatches}\<close>, and
  for every match in it: the position is an offset into the content, untrimmed, at
  which the query occurs (letter case aside); the text is the trimmed context window of
  that offset, \<open>contextLength\<close> characters on each side of the match and clamped to the
  content; the text is never longer than the window, and it is strictly shorter
  whenever the window begins or ends with a white-space character.  For every query
  that is not empty the call does return.
\<close>

theorem search_matches_trimmed:
  "(query \<noteq> [] \<longrightarrow> search_document content query contextLength \<noteq> None)
   \<and> (\<forall>r. search_document content query contextLength = Some r \<longrightarrow>
         (\<exists>matches. r = Found query matches (length matches)
            \<and> (\<forall>m \<in> set matches.
                  occurs_at query content (position m)
                  \<and> match_text m = trim (window_of content query contextLength (position m))
                  \<and> length (match_text m) \<le> length (window_of content query contextLength (position m))
                  \<and> (window_of content query contextLength (position m) \<noteq> []
                      \<and> (is_space (hd (window_of content query contextLength (position m)))
                           \<or> is_space (last (window_of content query contextLength (position m))))
                      \<longrightarrow> length (match_text m)
                            < length (window_of content query contextLength (position m))))))"
proof (cases "query = []")
  case True
  then show ?thesis by (simp add: search_document_empty_query)
next
  case False
  from search_matches_nonempty_query[OF this, of content contextLength]
  show ?thesis by auto
qed

lemma search_matches_example:
  "search_document ''find  me  here'' ''ME'' 2
     = Some (Found ''ME'' [\<lparr>match_text = ''me'', position = 6\<rparr>] 1)"
  by code_simp

lemma search_window_example: "window_of ''find  me  here'' ''ME'' 2 6 = ''  me  ''"
  by code_simp

lemma search_trim_example: "trim ''  me  '' = ''me''"
  by code_simp

theorem search_matches_trimmed_witness:
  "search_document ''find  me  here'' ''ME'' 2
     = Some (Found ''ME'' [\<lparr>match_text = ''me'', position = 6\<rparr>] 1)
   \<and> occurs_at ''ME'' ''find  me  here'' 6
   \<and> ''me'' = trim (window_of ''find  me  here'' ''ME'' 2 6)
   \<and> length ''me'' < length (window_of ''find  me  here'' ''ME'' 2 6)"
  using search_matches_trimmed[of "''ME''" "''find  me  here''" 2]
  by (simp add: search_matches_example search_window_example search_trim_example
        is_space_def space_chars_def)

section \<open>Properties of \<open>analyze_document\<close>: the summary\<close>








section \<open>Properties of \<open>analyze_document\<close>: the entities\<close>

text \<open>A list without its repetitions: every element stays where it first occurs.\<close>

definition first_occurrences :: "'a list \<Rightarrow> 'a list" where
  "first_occurrences xs = rev (remdups (rev xs))"

lemma first_occurrences_snoc:
  "first_occurrences (xs @ [x])
     = (if x \<in> set xs then first_occurrences xs else first_occurrences xs @ [x])"
  by (simp add: first_occurrences_def)

lemma set_add_all_snoc:
  "set_add_all acc (xs @ [x])
     = (if x \<in> set (set_add_all acc xs) then set_add_all acc xs else set_add_all acc xs @ [x])"
  by (induction xs arbitrary: acc) auto

lemma set_set_add_all: "set (set_add_all acc xs) = set acc \<union> set xs"
  by (induction xs arbitrary: acc) auto

lemma set_add_all_first_occurrences: "set_add_all [] xs = first_occurrences xs"
proof (induction xs rule: rev_induct)
  case Nil
  show ?case by (simp add: first_occurrences_def)
next
  case (snoc x xs)
  then show ?case
    by (simp add: set_add_all_snoc set_set_add_all first_occurrences_def)
qed

lemma distinct_first_occurrences: "distinct (first_occurrences xs)"
  by (simp add: first_occurrences_def)

lemma set_first_occurrences: "set (first_occurrences xs) = set xs"
  by (simp add: first_occurrences_def)

text \<open>What the four regular expressions find, in the order in which the tool
  collects it: at most 20 capitalised words, then the e-mail addresses, the phone
  numbers and the URLs.\<close>

definition found_entities :: "string \<Rightarrow> string list" where
  "found_entities content =
     take 20 (match_or_empty caps_re content) @ match_or_empty email_re content
       @ match_or_empty phone_re content @ match_or_empty url_re content"

text \<open>
  C6.  In the modes \<open>full\<close> and \<open>entities_only\<close> the entity list is the list of
  what the four regular expressions find (the first 20 capitalised words at most, all
  e-mail matches, all phone matches, all URL matches, in this order) with every
  repetition after the first occurrence dropped: it has no duplicates and its elements
  are exactly those of the four contributions.
\<close>

theorem entities_deduplicated:
  "entities (analyze_document content Full) = Some (first_occurrences (found_entities content))
   \<and> entities (analyze_document content EntitiesOnly) = Some (first_occurrences (found_entities content))
   \<and> distinct (first_occurrences (found_entities content))
   \<and> set (first_occurrences (found_entities content))
       = set (take 20 (match_or_empty caps_re content)) \<union> set (match_or_empty email_re content)
           \<union> set (match_or_empty phone_re content) \<union> set (match_or_empty url_re content)"
  by (auto simp: analyze_document_def entities_of_def Let_def set_add_all_first_occurrences
        found_entities_def distinct_first_occurrences set_first_occurrences)

theorem entities_deduplicated_witness:
  "entities (analyze_document ''Bob met Alice. Bob wrote to bob@example.com and to bob@example.com'' EntitiesOnly)
     = Some [''Bob'', ''Alice'', ''bob@example.com'']"
proof -
  have "first_occurrences (found_entities ''Bob met Alice. Bob wrote to bob@example.com and to bob@example.com'')
          = [''Bob'', ''Alice'', ''bob@example.com'']"
    by code_simp
  then show ?thesis
    using entities_deduplicated[of "''Bob met Alice. Bob wrote to bob@example.com and to bob@example.com''"]
    by simp
qed

section \<open>Properties of \<open>analyze_document\<close>: the topics\<close>

text \<open>The words that are counted: longer than three characters and not stop words.\<close>

definition counted_words :: "string list \<Rightarrow> string list" where
  "counted_words ws = filter (\<lambda>w. 3 < length w \<and> w \<notin> set stopWords) ws"

text \<open>The position at which an element first occurs in a list.\<close>

definition first_index :: "'a list \<Rightarrow> 'a \<Rightarrow> nat" where
  "first_index xs x = length (takeWhile (\<lambda>y. y \<noteq> x) xs)"

text \<open>The ranking as the specification words it: by descending count, equal counts in
  the order in which the words were first encountered; the first ten.\<close>

definition topics_by_first_seen :: "string list \<Rightarrow> string list" where
  "topics_by_first_seen cs =
     take 10 (sort_key (\<lambda>w. (- int (count_list cs w), first_index cs w)) (remdups cs))"

text \<open>
  The ranking with equal counts in the order in which an object enumerates its keys:
  the words that are array indices first, by ascending numeric value, then the other
  words in the order in which they were first encountered.
\<close>

definition key_order :: "string list \<Rightarrow> string \<Rightarrow> nat \<times> int" where
  "key_order cs w = (if is_array_index w then (0, dec_value w) else (1, int (first_index cs w)))"

definition topics_by_key_order :: "string list \<Rightarrow> string list" where
  "topics_by_key_order cs =
     take 10 (sort_key (\<lambda>w. (- int (count_list cs w), key_order cs w)) (remdups cs))"

subsection \<open>The table of counts\<close>

lemma freq_of_counted: "foldl count_word acc ws = foldl bump acc (counted_words ws)"
  by (induction ws arbitrary: acc) (simp_all add: counted_words_def count_word_def)

lemma map_of_tabulate:
  "map_of (map (\<lambda>k. (k, f k)) ks) x = (if x \<in> set ks then Some (f x) else None)"
  by (induction ks) auto

lemma count_list_snoc: "count_list (xs @ [x]) w = count_list xs w + (if w = x then 1 else 0)"
  by (induction xs) auto

lemma freq_table:
  assumes "''constructor'' \<notin> set cs" and "''__proto__'' \<notin> set cs"
  shows "foldl bump [] cs = map (\<lambda>w. (w, Num (count_list cs w))) (first_occurrences cs)"
  using assms
proof (induction cs rule: rev_induct)
  case Nil
  show ?case by (simp add: first_occurrences_def)
next
  case (snoc x xs)
  then have IH: "foldl bump [] xs = map (\<lambda>w. (w, Num (count_list xs w))) (first_occurrences xs)"
    and x: "x \<noteq> ''constructor''" "x \<noteq> ''__proto__''"
    by auto
  show ?case
  proof (cases "x \<in> set xs")
    case True
    then have "map_of (foldl bump [] xs) x = Some (Num (count_list xs x))"
      by (simp add: IH map_of_tabulate set_first_occurrences)
    then have "bump (foldl bump [] xs) x
                 = map (\<lambda>(k, v). if k = x then (k, case v of Num n \<Rightarrow> Num (Suc n) | NotANumber \<Rightarrow> NotANumber)
                                  else (k, v)) (foldl bump [] xs)"
      using x by (simp add: bump_def)
    also have "\<dots> = map (\<lambda>w. (w, Num (count_list (xs @ [x]) w))) (first_occurrences xs)"
      by (simp add: IH count_list_snoc)
    finally show ?thesis using True by (simp add: first_occurrences_snoc)
  next
    case False
    let ?g = "\<lambda>w. (w, Num (count_list (xs @ [x]) w))"
    from False have "map_of (foldl bump [] xs) x = None"
      by (simp add: IH map_of_tabulate set_first_occurrences)
    then have b: "bump (foldl bump [] xs) x = foldl bump [] xs @ [(x, Num 1)]"
      using x by (simp add: bump_def)
    have m: "foldl bump [] xs = map ?g (first_occurrences xs)"
      unfolding IH using False
      by (intro map_cong) (auto simp: count_list_snoc set_first_occurrences)
    have c: "(x, Num 1) = ?g x"
      using False by (simp add: count_list_snoc count_list_0_iff)
    have "foldl bump [] (xs @ [x]) = bump (foldl bump [] xs) x" by simp
    also have "\<dots> = map ?g (first_occurrences xs) @ [?g x]"
      unfolding b c[symmetric] using m by simp
    also have "\<dots> = map ?g (first_occurrences (xs @ [x]))"
      using False by (simp add: first_occurrences_snoc)
    finally show ?thesis .
  qed
qed

subsection \<open>Sorting\<close>

lemma insort_key_map:
  "insort_key f (h x) (map h xs) = map h (insort_key (\<lambda>y. f (h y)) x xs)"
  by (induction xs) simp_all

lemma sort_key_map: "sort_key f (map h xs) = map h (sort_key (\<lambda>y. f (h y)) xs)"
  by (induction xs) (simp_all add: insort_key_map)

lemma insort_key_tie_break:
  fixes k1 :: "'a \<Rightarrow> 'b::linorder" and k2 :: "'a \<Rightarrow> 'c::linorder"
  assumes "\<forall>y \<in> set ys. k2 x \<le> k2 y"
  shows "insort_key k1 x ys = insort_key (\<lambda>y. (k1 y, k2 y)) x ys"
  using assms by (induction ys) auto

lemma sort_key_tie_break:
  fixes k1 :: "'a \<Rightarrow> 'b::linorder" and k2 :: "'a \<Rightarrow> 'c::linorder"
  assumes "sorted (map k2 xs)"
  shows "sort_key k1 xs = sort_key (\<lambda>y. (k1 y, k2 y)) xs"
  using assms
proof (induction xs)
  case Nil
  show ?case by simp
next
  case (Cons x xs)
  then have IH: "sort_key k1 xs = sort_key (\<lambda>y. (k1 y, k2 y)) xs"
    and le: "\<forall>y \<in> set xs. k2 x \<le> k2 y" by auto
  from le have "\<forall>y \<in> set (sort_key (\<lambda>y. (k1 y, k2 y)) xs). k2 x \<le> k2 y" by simp
  from insort_key_tie_break[OF this, of k1] IH show ?case by simp
qed

subsection \<open>Decimal strings\<close>

definition no_leading_zero :: "string \<Rightarrow> bool" where
  "no_leading_zero w = (list_all (\<lambda>c. c \<in> set digits) w \<and> (w = [] \<or> hd w \<noteq> CHR ''0''))"

lemma dec_value_snoc: "dec_value (w @ [c]) = 10 * dec_value w + digit_value c"
  by (simp add: dec_value_def)

lemma digit_value_less: "0 \<le> digit_value c \<and> digit_value c < 10"
  by (auto simp: digit_value_def digits_def split: option.splits if_splits)

lemma digit_value_inj:
  "c \<in> set digits \<Longrightarrow> d \<in> set digits \<Longrightarrow> digit_value c = digit_value d \<Longrightarrow> c = d"
  by (auto simp: digit_value_def digits_def)

lemma digit_value_zero: "c \<in> set digits \<Longrightarrow> digit_value c = 0 \<Longrightarrow> c = CHR ''0''"
  by (auto simp: digit_value_def digits_def)

lemma no_leading_zero_snoc:
  "no_leading_zero (w @ [c]) \<Longrightarrow> no_leading_zero w \<and> c \<in> set digits \<and> (w = [] \<longrightarrow> c \<noteq> CHR ''0'')"
  by (cases w) (auto simp: no_leading_zero_def)

lemma dec_value_pos: "no_leading_zero w \<Longrightarrow> w \<noteq> [] \<Longrightarrow> 0 < dec_value w"
proof (induction w rule: rev_induct)
  case Nil
  then show ?case by simp
next
  case (snoc c w)
  from no_leading_zero_snoc[OF snoc.prems(1)]
  have w: "no_leading_zero w" and c: "c \<in> set digits" and z: "w = [] \<longrightarrow> c \<noteq> CHR ''0''" by simp_all
  show ?case
  proof (cases "w = []")
    case True
    with z c digit_value_zero[of c] have "digit_value c \<noteq> 0" by auto
    with digit_value_less[of c] have "0 < digit_value c" by simp
    with True show ?thesis by (simp add: dec_value_snoc dec_value_def)
  next
    case False
    with snoc.IH w have "0 < dec_value w" by simp
    with digit_value_less[of c] show ?thesis by (simp add: dec_value_snoc)
  qed
qed

lemma dec_value_inj:
  "no_leading_zero v \<Longrightarrow> no_leading_zero w \<Longrightarrow> dec_value v = dec_value w \<Longrightarrow> v = w"
proof (induction v arbitrary: w rule: rev_induct)
  case Nil
  then show ?case using dec_value_pos[of w] by (cases "w = []") (simp_all add: dec_value_def)
next
  case (snoc c v)
  from no_leading_zero_snoc[OF snoc.prems(1)]
  have v: "no_leading_zero v" and c: "c \<in> set digits" by simp_all
  have "0 < dec_value (v @ [c])" using dec_value_pos[OF snoc.prems(1)] by simp
  with snoc.prems(3) have "w \<noteq> []" by (auto simp: dec_value_def)
  then obtain u d where w: "w = u @ [d]" by (cases w rule: rev_cases) auto
  from no_leading_zero_snoc[of u d] snoc.prems(2) w
  have u: "no_leading_zero u" and d: "d \<in> set digits" by simp_all
  from snoc.prems(3) w have eq: "10 * dec_value v + digit_value c = 10 * dec_value u + digit_value d"
    by (simp add: dec_value_snoc)
  have "digit_value c = digit_value d \<and> dec_value v = dec_value u"
    using eq digit_value_less[of c] digit_value_less[of d] by presburger
  with snoc.IH[OF v u] digit_value_inj[OF c d] w show ?case by simp
qed

lemma array_index_cases:
  "is_array_index u \<Longrightarrow> u = ''0'' \<or> (no_leading_zero u \<and> u \<noteq> [])"
  by (simp add: is_array_index_def no_leading_zero_def) blast

lemma dec_value_0: "dec_value ''0'' = 0"
  by (simp add: dec_value_def digit_value_def)

lemma array_index_inj:
  assumes "is_array_index v" "is_array_index w" "dec_value v = dec_value w"
  shows "v = w"
proof -
  from array_index_cases[OF assms(1)] array_index_cases[OF assms(2)]
  consider "v = ''0''" "w = ''0''"
    | "v = ''0''" "no_leading_zero w" "w \<noteq> []"
    | "no_leading_zero v" "v \<noteq> []" "w = ''0''"
    | "no_leading_zero v" "no_leading_zero w"
    by blast
  then show ?thesis
  proof cases
    case 1
    then show ?thesis by simp
  next
    case 2
    with dec_value_pos[of w] assms(3) dec_value_0 show ?thesis by simp
  next
    case 3
    with dec_value_pos[of v] assms(3) dec_value_0 show ?thesis by simp
  next
    case 4
    from dec_value_inj[OF this assms(3)] show ?thesis .
  qed
qed

subsection \<open>First occurrences\<close>

lemma first_index_less: "x \<in> set xs \<Longrightarrow> first_index xs x < length xs"
  unfolding first_index_def by (induction xs) auto

lemma nth_first_index: "x \<in> set xs \<Longrightarrow> xs ! first_index xs x = x"
  unfolding first_index_def by (induction xs) auto

lemma first_index_snoc: "w \<in> set xs \<Longrightarrow> first_index (xs @ [x]) w = first_index xs w"
  unfolding first_index_def by (induction xs) auto

lemma first_index_new: "x \<notin> set xs \<Longrightarrow> first_index (xs @ [x]) x = length xs"
  unfolding first_index_def by (induction xs) auto

lemma first_index_inj: "inj_on (first_index xs) (set xs)"
proof (rule inj_onI)
  fix v w
  assume v: "v \<in> set xs" and w: "w \<in> set xs" and eq: "first_index xs v = first_index xs w"
  have "v = xs ! first_index xs v" using nth_first_index[OF v] by (rule sym)
  also have "\<dots> = xs ! first_index xs w" unfolding eq ..
  also have "\<dots> = w" by (rule nth_first_index[OF w])
  finally show "v = w" .
qed

lemma sorted_first_index: "sorted (map (first_index xs) (first_occurrences xs))"
proof (induction xs rule: rev_induct)
  case Nil
  show ?case by (simp add: first_occurrences_def)
next
  case (snoc x xs)
  have same: "map (first_index (xs @ [x])) (first_occurrences xs)
                = map (first_index xs) (first_occurrences xs)"
    by (intro map_cong) (simp_all add: first_index_snoc set_first_occurrences)
  show ?case
  proof (cases "x \<in> set xs")
    case True
    show ?thesis
      unfolding first_occurrences_snoc if_P[OF True] same by (rule snoc)
  next
    case False
    have "\<forall>w \<in> set (first_occurrences xs). first_index xs w \<le> length xs"
      using first_index_less[of _ xs] by (auto simp: set_first_occurrences intro: less_imp_le)
    then have "sorted (map (first_index xs) (first_occurrences xs) @ [length xs])"
      using snoc by (simp add: sorted_append)
    then show ?thesis
      unfolding first_occurrences_snoc if_not_P[OF False] map_append same
      by (simp add: first_index_new[OF False])
  qed
qed

subsection \<open>The order of \<open>Object.entries\<close>\<close>

definition enumerated :: "string list \<Rightarrow> string list" where
  "enumerated ks = sort_key dec_value (filter is_array_index ks) @ filter (\<lambda>k. \<not> is_array_index k) ks"

lemma Object_entries_table:
  "Object_entries (map (\<lambda>w. (w, g w)) ks) = map (\<lambda>w. (w, g w)) (enumerated ks)"
proof -
  have 1: "filter (\<lambda>(k, v). is_array_index k) (map (\<lambda>w. (w, g w)) ks)
             = map (\<lambda>w. (w, g w)) (filter is_array_index ks)"
    by (simp add: filter_map comp_def)
  have 2: "filter (\<lambda>(k, v). \<not> is_array_index k) (map (\<lambda>w. (w, g w)) ks)
             = map (\<lambda>w. (w, g w)) (filter (\<lambda>k. \<not> is_array_index k) ks)"
    by (simp add: filter_map comp_def)
  show ?thesis
    unfolding Object_entries_def enumerated_def 1 2 by (simp add: sort_key_map)
qed

lemma mset_enumerated: "mset (enumerated ks) = mset ks"
  by (simp add: enumerated_def)

lemma sorted_enumerated:
  "sorted (map (key_order cs) (enumerated (first_occurrences cs)))"
proof -
  let ?K = "first_occurrences cs"
  have 1: "map (key_order cs) (sort_key dec_value (filter is_array_index ?K))
             = map (\<lambda>w. (0, dec_value w)) (sort_key dec_value (filter is_array_index ?K))"
    by (intro map_cong) (auto simp: key_order_def)
  have 2: "map (key_order cs) (filter (\<lambda>k. \<not> is_array_index k) ?K)
             = map (\<lambda>w. (1, int (first_index cs w))) (filter (\<lambda>k. \<not> is_array_index k) ?K)"
    by (intro map_cong) (auto simp: key_order_def)
  have pair: "\<And>(f :: string \<Rightarrow> int) (n :: nat) xs. sorted (map f xs) \<Longrightarrow> sorted (map (\<lambda>w. (n, f w)) xs)"
    by (simp add: sorted_map sorted_wrt_iff_nth_less)
  have s1: "sorted (map (\<lambda>w. (0::nat, dec_value w)) (sort_key dec_value (filter is_array_index ?K)))"
    by (rule pair) simp
  have "sorted (map (\<lambda>w. int (first_index cs w)) ?K)"
    using sorted_first_index[of cs] by (simp add: sorted_map)
  then have s2: "sorted (map (\<lambda>w. (1::nat, int (first_index cs w))) (filter (\<lambda>k. \<not> is_array_index k) ?K))"
    by (intro pair sorted_filter)
  show ?thesis
    unfolding enumerated_def map_append 1 2 using s1 s2 by (auto simp: sorted_append)
qed

lemma key_order_inj: "inj_on (key_order cs) (set cs)"
proof (rule inj_onI)
  fix v w
  assume v: "v \<in> set cs" and w: "w \<in> set cs" and eq: "key_order cs v = key_order cs w"
  show "v = w"
  proof (cases "is_array_index v")
    case True
    with eq have "is_array_index w" "dec_value v = dec_value w"
      by (auto simp: key_order_def split: if_splits)
    with True show ?thesis by (intro array_index_inj)
  next
    case False
    with eq have "first_index cs v = first_index cs w"
      by (auto simp: key_order_def split: if_splits)
    with v w show ?thesis using first_index_inj[of cs] by (auto dest: inj_onD)
  qed
qed

subsection \<open>The topics\<close>

lemma topics_of_key_order:
  assumes "''constructor'' \<notin> set (counted_words ws)" and "''__proto__'' \<notin> set (counted_words ws)"
  shows "topics_of ws = Sorted (topics_by_key_order (counted_words ws))"
proof -
  let ?cs = "counted_words ws"
  let ?g = "\<lambda>w. (w, Num (count_list ?cs w))"
  let ?E = "enumerated (first_occurrences ?cs)"
  let ?k1 = "\<lambda>w. - int (count_list ?cs w)"
  let ?K = "\<lambda>w. (?k1 w, key_order ?cs w)"
  have freq: "freq_of ws = map ?g (first_occurrences ?cs)"
    unfolding freq_of_def freq_of_counted by (rule freq_table[OF assms])
  have entries: "Object_entries (freq_of ws) = map ?g ?E"
    unfolding freq by (rule Object_entries_table)
  have "NotANumber \<notin> set (map snd (map ?g ?E))" by auto
  then have "sort_by_count_desc (map ?g ?E)
               = Sorted (sort_key (\<lambda>(k, v). case v of Num n \<Rightarrow> - int n | NotANumber \<Rightarrow> 0) (map ?g ?E))"
    unfolding sort_by_count_desc_def by (rule if_P)
  also have "sort_key (\<lambda>(k, v). case v of Num n \<Rightarrow> - int n | NotANumber \<Rightarrow> 0) (map ?g ?E)
               = map ?g (sort_key ?k1 ?E)"
    by (simp add: sort_key_map)
  finally have sorted: "sort_by_count_desc (Object_entries (freq_of ws)) = Sorted (map ?g (sort_key ?k1 ?E))"
    unfolding entries .
  have topics: "topics_of ws = Sorted (take 10 (sort_key ?k1 ?E))"
    unfolding topics_of_def sorted by (simp add: take_map[symmetric] comp_def)
  have tie: "sort_key ?k1 ?E = sort_key ?K ?E"
    by (rule sort_key_tie_break) (rule sorted_enumerated)
  have "mset (remdups ?cs) = mset (first_occurrences ?cs)"
    by (intro iffD1[OF set_eq_iff_mset_eq_distinct])
       (simp_all add: distinct_first_occurrences set_first_occurrences)
  then have m: "mset (remdups ?cs) = mset (sort_key ?k1 ?E)"
    by (simp add: mset_enumerated)
  have "inj_on ?K (set ?cs)"
    using key_order_inj[of ?cs] by (auto simp: inj_on_def)
  then have inj: "inj_on ?K (set (remdups ?cs))" by simp
  have "sorted (map ?K (sort_key ?k1 ?E))"
    unfolding tie by simp
  from sort_key_inj_key_eq[OF m inj this]
  have "sort_key ?K (remdups ?cs) = sort_key ?k1 ?E" .
  then show ?thesis
    unfolding topics topics_by_key_order_def by simp
qed

lemma insort_key_cong_order:
  fixes f :: "'a \<Rightarrow> 'b::linorder" and g :: "'a \<Rightarrow> 'c::linorder"
  assumes "\<forall>y \<in> set ys. (f x \<le> f y) = (g x \<le> g y)"
  shows "insort_key f x ys = insort_key g x ys"
  using assms by (induction ys) auto

lemma sort_key_cong_order:
  fixes f :: "'a \<Rightarrow> 'b::linorder" and g :: "'a \<Rightarrow> 'c::linorder"
  assumes "\<forall>x \<in> set xs. \<forall>y \<in> set xs. (f x \<le> f y) = (g x \<le> g y)"
  shows "sort_key f xs = sort_key g xs"
  using assms
proof (induction xs)
  case Nil
  show ?case by simp
next
  case (Cons x xs)
  then have IH: "sort_key f xs = sort_key g xs" by simp
  have "\<forall>y \<in> set (sort_key g xs). (f x \<le> f y) = (g x \<le> g y)"
    using Cons.prems by simp
  from insort_key_cong_order[OF this] IH show ?case by simp
qed

lemma topics_by_key_order_first_seen:
  assumes "\<forall>w \<in> set cs. \<not> is_array_index w"
  shows "topics_by_key_order cs = topics_by_first_seen cs"
proof -
  have "sort_key (\<lambda>w. (- int (count_list cs w), key_order cs w)) (remdups cs)
          = sort_key (\<lambda>w. (- int (count_list cs w), first_index cs w)) (remdups cs)"
    using assms by (intro sort_key_cong_order) (auto simp: key_order_def)
  then show ?thesis
    by (simp add: topics_by_key_order_def topics_by_first_seen_def)
qed

text \<open>The claim C3 as stated fails on the content \<open>hello 2024\<close>: both words occur
  once and \<open>hello\<close> is encountered first, but \<open>2024\<close> is an array index and is
  listed first.\<close>

theorem topics_first_seen_counterexample:
  "topics (analyze_document ''hello 2024'' TopicsOnly) = Some (Sorted [''2024'', ''hello''])
   \<and> topics_by_first_seen (counted_words (words_of ''hello 2024'')) = [''hello'', ''2024'']
   \<and> topics (analyze_document ''hello 2024'' TopicsOnly)
       \<noteq> Some (Sorted (topics_by_first_seen (counted_words (words_of ''hello 2024''))))"
  by code_simp

text \<open>
  C3, amended.  When neither \<open>constructor\<close> nor \<open>__proto__\<close> is among the counted
  words (the lower-cased words without punctuation that are longer than three
  characters and are not stop words), the topics in the mode \<open>topics_only\<close> are the at
  most ten first counted words in the ranking by descending number of occurrences, where
  words that occur equally often stand in the key order of the table of counts: the
  words that are array indices first, by ascending numeric value, then the others in
  the order in which they were first encountered.  When no counted word is an array
  index this is the order of first encounter, as the claim has it.
\<close>

theorem topics_ranked:
  assumes "''constructor'' \<notin> set (counted_words (words_of content))"
    and "''__proto__'' \<notin> set (counted_words (words_of content))"
  shows "topics (analyze_document content TopicsOnly)
           = Some (Sorted (topics_by_key_order (counted_words (words_of content))))
         \<and> length (topics_by_key_order (counted_words (words_of content))) \<le> 10
         \<and> ((\<forall>w \<in> set (counted_words (words_of content)). \<not> is_array_index w) \<longrightarrow>
              topics (analyze_document content TopicsOnly)
                = Some (Sorted (topics_by_first_seen (counted_words (words_of content)))))"
  using topics_of_key_order[OF assms] topics_by_key_order_first_seen
  by (simp add: analyze_document_def Let_def topics_by_key_order_def)

lemma topics_example_words:
  "counted_words (words_of ''Beta 2024, alpha; the beta 1999 alpha gamma (and 2024).'')
     = [''beta'', ''2024'', ''alpha'', ''beta'', ''1999'', ''alpha'', ''gamma'', ''2024'']"
  by code_simp

lemma topics_example_ranking:
  "topics_by_key_order [''beta'', ''2024'', ''alpha'', ''beta'', ''1999'', ''alpha'', ''gamma'', ''2024'']
     = [''2024'', ''beta'', ''alpha'', ''1999'', ''gamma'']"
  by code_simp

theorem topics_ranked_witness:
  "topics (analyze_document ''Beta 2024, alpha; the beta 1999 alpha gamma (and 2024).'' TopicsOnly)
     = Some (Sorted [''2024'', ''beta'', ''alpha'', ''1999'', ''gamma''])"
  using topics_ranked[of "''Beta 2024, alpha; the beta 1999 alpha gamma (and 2024).''"]
  by (simp add: topics_example_words topics_example_ranking)

text \<open>The two words that the table of counts does not count as numbers: \<open>__proto__\<close>
  is never listed, and \<open>constructor\<close> leaves the order of the result to the
  implementation once two other counts differ.\<close>

lemma topics_prototype_words:
  "topics (analyze_document ''alpha __proto__ __proto__'' TopicsOnly) = Some (Sorted [''alpha''])
   \<and> topics (analyze_document ''alpha beta beta constructor'' TopicsOnly) = Some ImplementationDefined"
  by code_simp

end
